theory Spec2Isabelle
  imports Main "HOL-Library.Word" "HOL-Library.Stream" "HOL-Library.Sublist"
begin

section \<open>The keyboard input dispatcher of input.cpp\<close>

text \<open>
  A shallow embedding of \<^verbatim>\<open>src/input.cpp\<close>: the binding table, the matcher, the
  dispatcher, the match-or-generic scan, the terminfo registry and the function registry.
  The file-level and function-level static variables of the translation unit are the
  fields of one record, \<open>input_state\<close>, which every function takes and returns.
\<close>

subsection \<open>Wide characters and wide strings\<close>

text \<open>
  \<^verbatim>\<open>wchar_t\<close> and \<^verbatim>\<open>wint_t\<close> are 32-bit; \<^verbatim>\<open>(wchar_t)-1\<close> is the word \<open>-1\<close>.
  A \<^verbatim>\<open>wcstring\<close> is a list of wide characters. \<open>L\<close> is the wide literal
  prefix \<^verbatim>\<open>L"..."\<close>.
\<close>

type_synonym wchar = "32 word"
type_synonym wcstring = "wchar list"

definition L :: "string \<Rightarrow> wcstring" where
  "L s = map of_char s"

text \<open>
  \<^verbatim>\<open>wcstring::c_str()\<close> read as a NUL-terminated string: the characters before
  the first \<^verbatim>\<open>L'\0'\<close>.
\<close>

definition c_str :: "wcstring \<Rightarrow> wcstring" where
  "c_str s = takeWhile (\<lambda>c. c \<noteq> 0) s"

subsection \<open>The reader behind \<^verbatim>\<open>input_common_readch\<close> and \<^verbatim>\<open>input_common_unreadch\<close>\<close>

text \<open>
  Modelled from the spec: \<^verbatim>\<open>input_common_readch\<close> and \<^verbatim>\<open>input_common_unreadch\<close>
  are defined in input_common.cpp, which is not among the sources. Section 4.1 of the
  specification gives their contract: \<^verbatim>\<open>unread_char\<close> pushes one wide character on a LIFO
  stack, and \<^verbatim>\<open>read_char(timed)\<close> drains that stack before it consults the terminal.
  The terminal is the stream of characters it will deliver. \<open>read_log\<close> records the
  \<^verbatim>\<open>timed\<close> argument of every read, oldest first, so that statements about how a
  character was read can be made.
\<close>

record reader =
  lookahead :: "wchar list"
  terminal :: "wchar stream"
  read_log :: "bool list"

definition input_common_readch :: "bool \<Rightarrow> reader \<Rightarrow> wchar \<times> reader" where
  "input_common_readch timed r =
     (case lookahead r of
        c # cs \<Rightarrow> (c, r\<lparr>lookahead := cs, read_log := read_log r @ [timed]\<rparr>)
      | [] \<Rightarrow> (shd (terminal r),
               r\<lparr>terminal := stl (terminal r), read_log := read_log r @ [timed]\<rparr>))"

definition input_common_unreadch :: "wchar \<Rightarrow> reader \<Rightarrow> reader" where
  "input_common_unreadch ch r = r\<lparr>lookahead := ch # lookahead r\<rparr>"

text \<open>What the coming reads will deliver, in order.\<close>

definition readable :: "reader \<Rightarrow> wchar stream" where
  "readable r = lookahead r @- terminal r"

subsection \<open>Bindings and the state of the translation unit\<close>

record input_mapping_t =
  seq :: wcstring
  commands :: "wcstring list"
  specification_order :: "32 word"
  mode :: wcstring
  sets_mode :: wcstring

record terminfo_mapping_t =
  name :: wcstring
  tseq :: "string option"

datatype errno_t = ENOENT | EILSEQ | Errno int

text \<open>
  The static variables of input.cpp, then what the file reaches through other modules:
  the reader, the environment variable \<^verbatim>\<open>fish_bind_mode\<close> (\<open>None\<close> when it is
  missing), the last process status, \<^verbatim>\<open>errno\<close>, and the commands handed to the
  parser, oldest first. \<open>dispatched\<close> records the bindings given to
  \<^verbatim>\<open>input_mapping_execute\<close>, oldest first.
\<close>

record input_state =
  mapping_list :: "input_mapping_t list"
  s_last_input_mapping_specification_order :: "32 word"
  terminfo_mappings :: "terminfo_mapping_t list"
  is_init :: bool
  input_function_args :: "wchar list"
  input_function_status :: bool
  input_function_args_index :: int
  rd :: reader
  fish_bind_mode :: "wcstring option"
  last_status :: int
  errno :: errno_t
  evaluated :: "wcstring list"
  dispatched :: "input_mapping_t list"

definition MAX_INPUT_FUNCTION_ARGS :: nat where
  "MAX_INPUT_FUNCTION_ARGS = 20"

text \<open>The state at program start: static storage is zero-initialised.\<close>

definition initial_state :: "wchar stream \<Rightarrow> input_state" where
  "initial_state t =
     \<lparr>mapping_list = [], s_last_input_mapping_specification_order = 0,
      terminfo_mappings = [], is_init = False,
      input_function_args = replicate MAX_INPUT_FUNCTION_ARGS 0,
      input_function_status = False, input_function_args_index = 0,
      rd = \<lparr>lookahead = [], terminal = t, read_log = []\<rparr>,
      fish_bind_mode = None, last_status = 0, errno = Errno 0,
      evaluated = [], dispatched = []\<rparr>"

subsection \<open>The binding table\<close>

text \<open>
  The constructor of \<^verbatim>\<open>input_mapping_t\<close>: it increments the function-level static
  counter, an \<^verbatim>\<open>unsigned int\<close>, and stamps the new binding with the result.
\<close>

definition new_input_mapping ::
  "wcstring \<Rightarrow> wcstring list \<Rightarrow> wcstring \<Rightarrow> wcstring \<Rightarrow> input_state \<Rightarrow> input_mapping_t \<times> input_state" where
  "new_input_mapping s c m sm st =
     (let n = s_last_input_mapping_specification_order st + 1
      in (\<lparr>seq = s, commands = c, specification_order = n, mode = m, sets_mode = sm\<rparr>,
          st\<lparr>s_last_input_mapping_specification_order := n\<rparr>))"

definition length_is_greater_than :: "input_mapping_t \<Rightarrow> input_mapping_t \<Rightarrow> bool" where
  "length_is_greater_than m1 m2 = (length (seq m1) > length (seq m2))"

definition specification_order_is_less_than :: "input_mapping_t \<Rightarrow> input_mapping_t \<Rightarrow> bool" where
  "specification_order_is_less_than m1 m2 = (specification_order m1 < specification_order m2)"

text \<open>
  \<^verbatim>\<open>std::lower_bound(first, first + len, v, cmp)\<close>: the binary search of the standard
  library, which halves the range and goes right while \<open>cmp\<close> holds of the middle
  element. It is written on indices into \<open>xs\<close>.
\<close>

function lower_bound :: "('a \<Rightarrow> 'a \<Rightarrow> bool) \<Rightarrow> 'a list \<Rightarrow> 'a \<Rightarrow> nat \<Rightarrow> nat \<Rightarrow> nat" where
  "lower_bound cmp xs v first len =
     (if 0 < len
      then (if cmp (xs ! (first + len div 2)) v
            then lower_bound cmp xs v (first + len div 2 + 1) (len - len div 2 - 1)
            else lower_bound cmp xs v first (len div 2))
      else first)"
  by pat_completeness auto
termination
  by (relation "measure (\<lambda>(cmp, xs, v, first, len). len)") auto

declare lower_bound.simps [simp del]

definition input_mapping_insert_sorted :: "input_mapping_t \<Rightarrow> input_state \<Rightarrow> input_state" where
  "input_mapping_insert_sorted new_mapping st =
     (let loc = lower_bound length_is_greater_than (mapping_list st) new_mapping 0
                  (length (mapping_list st))
      in st\<lparr>mapping_list := take loc (mapping_list st) @ new_mapping # drop loc (mapping_list st)\<rparr>)"

text \<open>
  \<^verbatim>\<open>input_mapping_add\<close>. The arguments stand for the non-null, NUL-terminated strings
  that pass the \<^verbatim>\<open>CHECK\<close>s. The loop over the indices stops at the first binding with
  the same sequence and mode.
\<close>

definition input_mapping_add ::
  "wcstring \<Rightarrow> wcstring list \<Rightarrow> wcstring \<Rightarrow> wcstring \<Rightarrow> input_state \<Rightarrow> input_state" where
  "input_mapping_add sequence commands_vector md sm st =
     (case find (\<lambda>i. seq (mapping_list st ! i) = sequence \<and> mode (mapping_list st ! i) = md)
             [0..<length (mapping_list st)] of
        Some i \<Rightarrow>
          st\<lparr>mapping_list :=
               (mapping_list st)[i := (mapping_list st ! i)\<lparr>commands := commands_vector, sets_mode := sm\<rparr>]\<rparr>
      | None \<Rightarrow>
          (case new_input_mapping sequence commands_vector md sm st of
             (new_mapping, st') \<Rightarrow> input_mapping_insert_sorted new_mapping st'))"

text \<open>
  \<^verbatim>\<open>input_mapping_erase\<close>; a null \<^verbatim>\<open>mode\<close> is \<open>None\<close>. The last element is copied
  over the erased one and the vector is shortened by one.
\<close>

definition input_mapping_erase :: "wcstring \<Rightarrow> wcstring option \<Rightarrow> input_state \<Rightarrow> bool \<times> input_state" where
  "input_mapping_erase sequence md st =
     (let sz = length (mapping_list st)
      in case find (\<lambda>i. sequence = seq (mapping_list st ! i) \<and>
                         (md = None \<or> md = Some (mode (mapping_list st ! i)))) [0..<sz] of
           Some i \<Rightarrow>
             (True,
              st\<lparr>mapping_list :=
                   butlast (if i \<noteq> sz - 1 then (mapping_list st)[i := mapping_list st ! (sz - 1)]
                            else mapping_list st)\<rparr>)
         | None \<Rightarrow> (False, st))"

text \<open>The order the insertion is meant to keep: longer sequences first.\<close>

definition descending_length :: "input_mapping_t list \<Rightarrow> bool" where
  "descending_length ms = sorted_wrt (\<lambda>m1 m2. length (seq m2) \<le> length (seq m1)) ms"

subsection \<open>Statements about the table\<close>

text \<open>The pair that \<^verbatim>\<open>input_mapping_add\<close> compares: sequence and mode.\<close>

definition binding_key :: "input_mapping_t \<Rightarrow> wcstring \<times> wcstring" where
  "binding_key m = (seq m, mode m)"

text \<open>A run of calls of \<^verbatim>\<open>input_mapping_add\<close>, each with its four arguments.\<close>

type_synonym add_call = "wcstring \<times> wcstring list \<times> wcstring \<times> wcstring"

fun run_adds :: "add_call list \<Rightarrow> input_state \<Rightarrow> input_state" where
  "run_adds [] st = st"
| "run_adds ((q, c, m, sm) # ops) st = run_adds ops (input_mapping_add q c m sm st)"

text \<open>
  What calls of \<^verbatim>\<open>input_mapping_add\<close> keep true from program start: the keys are
  distinct and, while the table has fewer than \<open>2 ^ 32\<close> bindings, the counter has not
  wrapped: it is the number of bindings and no stamp exceeds it.
\<close>

definition table_inv :: "input_state \<Rightarrow> bool" where
  "table_inv st =
     (distinct (map binding_key (mapping_list st)) \<and>
      (length (mapping_list st) < 2 ^ 32 \<longrightarrow>
         unat (s_last_input_mapping_specification_order st) = length (mapping_list st) \<and>
         (\<forall>m \<in> set (mapping_list st).
            specification_order m \<le> s_last_input_mapping_specification_order st)))"

text \<open>
  Concrete tables. \<open>three_bindings\<close> binds \<^verbatim>\<open>abc\<close>, \<^verbatim>\<open>ab\<close> and \<^verbatim>\<open>a\<close> in
  this order; \<open>one_binding\<close> binds \<^verbatim>\<open>a\<close>. \<open>many_adds n\<close> binds \<open>n\<close> different
  two-character sequences without a NUL, the \<open>k\<close>-th being \<open>nth_key k\<close>, and
  \<open>nth_binding k\<close> is the binding the \<open>k\<close>-th of these calls creates.
\<close>

definition three_bindings :: input_state where
  "three_bindings =
     run_adds [(L ''abc'', [L ''yank''], L ''default'', L ''default''),
               (L ''ab'', [L ''yank''], L ''default'', L ''default''),
               (L ''a'', [L ''yank''], L ''default'', L ''default'')]
       (initial_state (sconst 0x0A))"

definition one_binding :: input_state where
  "one_binding = run_adds [(L ''a'', [L ''yank''], L ''default'', L ''default'')] (initial_state (sconst 0x0A))"

definition nth_key :: "nat \<Rightarrow> wcstring" where
  "nth_key k = [of_nat (k mod 65536) + 1, of_nat (k div 65536) + 1]"

definition many_adds :: "nat \<Rightarrow> add_call list" where
  "many_adds n = map (\<lambda>k. (nth_key k, [L ''yank''], L ''default'', L ''default'')) [0..<n]"

definition nth_binding :: "nat \<Rightarrow> input_mapping_t" where
  "nth_binding k = \<lparr>seq = nth_key k, commands = [L ''yank''], specification_order = of_nat (Suc k),
     mode = L ''default'', sets_mode = L ''default''\<rparr>"

subsection \<open>What the headers and the C library fix\<close>

text \<open>
  Modelled from the spec: the enumeration that gives the \<^verbatim>\<open>R_\<close> codes their values is
  declared in input_common.h and input.h, and \<^verbatim>\<open>iswcntrl\<close> and the conversion that
  \<^verbatim>\<open>format_string(L"%s", ...)\<close> applies to a narrow string belong to the C library; none
  of them is among the sources. They are parameters of the model, the fields of
  \<open>platform\<close>. Section 3 of the specification places the codes of the editor functions in
  one reserved range, and \<^verbatim>\<open>describe_char\<close> finds the name of a code \<open>c\<close> at index
  \<^verbatim>\<open>c - R_BEGINNING_OF_LINE\<close> of \<^verbatim>\<open>name_arr\<close>: the enumeration lists the functions
  in the order of \<^verbatim>\<open>code_arr\<close>, from \<^verbatim>\<open>R_BEGINNING_OF_LINE\<close> on, each one more than
  the one before. \<open>function_code P i\<close> is the \<open>i\<close>-th of them. The last five fields are
  what the terminal database answers at start-up: whether \<^verbatim>\<open>setupterm\<close> succeeds for the
  user's \<^verbatim>\<open>TERM\<close> and the \<^verbatim>\<open>errret\<close> it leaves, whether it succeeds for the fallback
  \<^verbatim>\<open>ansi\<close>, whether \<^verbatim>\<open>TERM\<close> is set, and the sequence of each key (\<open>None\<close> for a key
  the terminal does not define).
\<close>

record platform =
  R_NULL :: wchar
  R_EOF :: wchar
  R_BEGINNING_OF_LINE :: wchar
  iswcntrl :: "wchar \<Rightarrow> bool"
  widen :: "string \<Rightarrow> wcstring"
  setupterm_ok :: bool
  setupterm_errret :: int
  setupterm_ansi_ok :: bool
  TERM_missing :: bool
  terminfo_key :: "wcstring \<Rightarrow> string option"

definition function_code :: "platform \<Rightarrow> nat \<Rightarrow> wchar" where
  "function_code P i = R_BEGINNING_OF_LINE P + of_nat i"

subsection \<open>The function registry\<close>

definition name_arr :: "wcstring list" where
  "name_arr =
     [
      L ''beginning-of-line'',
      L ''end-of-line'',
      L ''forward-char'',
      L ''backward-char'',
      L ''forward-word'',
      L ''backward-word'',
      L ''history-search-backward'',
      L ''history-search-forward'',
      L ''delete-char'',
      L ''backward-delete-char'',
      L ''kill-line'',
      L ''yank'',
      L ''yank-pop'',
      L ''complete'',
      L ''complete-and-search'',
      L ''beginning-of-history'',
      L ''end-of-history'',
      L ''backward-kill-line'',
      L ''kill-whole-line'',
      L ''kill-word'',
      L ''backward-kill-word'',
      L ''backward-kill-path-component'',
      L ''history-token-search-backward'',
      L ''history-token-search-forward'',
      L ''self-insert'',
      L ''transpose-chars'',
      L ''transpose-words'',
      L ''upcase-word'',
      L ''downcase-word'',
      L ''capitalize-word'',
      L ''vi-arg-digit'',
      L ''vi-delete-to'',
      L ''execute'',
      L ''beginning-of-buffer'',
      L ''end-of-buffer'',
      L ''repaint'',
      L ''force-repaint'',
      L ''up-line'',
      L ''down-line'',
      L ''suppress-autosuggestion'',
      L ''accept-autosuggestion'',
      L ''begin-selection'',
      L ''end-selection'',
      L ''kill-selection'',
      L ''forward-jump'',
      L ''backward-jump'',
      L ''and'',
      L ''cancel''
     ]"

text \<open>
  \<^verbatim>\<open>code_arr\<close> lists the enumerators in the order of the enumeration, one for each name.
  \<^verbatim>\<open>R_FORWARD_JUMP\<close> and \<^verbatim>\<open>R_BACKWARD_JUMP\<close> are its entries 44 and 45.
\<close>

definition code_arr :: "platform \<Rightarrow> wchar list" where
  "code_arr P = map (function_code P) [0..<48]"

definition R_FORWARD_JUMP :: "platform \<Rightarrow> wchar" where
  "R_FORWARD_JUMP P = function_code P 44"

definition R_BACKWARD_JUMP :: "platform \<Rightarrow> wchar" where
  "R_BACKWARD_JUMP P = function_code P 45"

text \<open>
  \<^verbatim>\<open>format_string\<close> with \<^verbatim>\<open>%02x\<close>: the value in lower-case hexadecimal, padded with
  zeros to two digits.
\<close>

definition hex_digit :: "nat \<Rightarrow> char" where
  "hex_digit d = ''0123456789abcdef'' ! d"

fun hex :: "nat \<Rightarrow> string" where
  "hex n = (if n < 16 then [hex_digit n] else hex (n div 16) @ [hex_digit (n mod 16)])"

declare hex.simps [simp del]

definition format_02x :: "wchar \<Rightarrow> wcstring" where
  "format_02x c = L (replicate (2 - length (hex (unat c))) CHR ''0'' @ hex (unat c))"

text \<open>
  \<^verbatim>\<open>describe_char\<close>. The bound \<^verbatim>\<open>initial_cmd_char + name_count\<close> is computed in
  \<^verbatim>\<open>size_t\<close> and does not wrap; the index \<^verbatim>\<open>c - initial_cmd_char\<close> is computed in
  \<^verbatim>\<open>wint_t\<close>.
\<close>

definition describe_char :: "platform \<Rightarrow> wchar \<Rightarrow> wcstring" where
  "describe_char P c =
     (if c \<ge> R_BEGINNING_OF_LINE P \<and> unat c < unat (R_BEGINNING_OF_LINE P) + length name_arr
      then format_02x c @ L '' ('' @ name_arr ! unat (c - R_BEGINNING_OF_LINE P) @ L '')''
      else format_02x c)"

definition input_function_get_names :: "wcstring list" where
  "input_function_get_names = name_arr"

text \<open>\<^verbatim>\<open>input_function_get_code\<close>: the code at the first index whose name is equal.\<close>

definition input_function_get_code :: "platform \<Rightarrow> wcstring \<Rightarrow> wchar" where
  "input_function_get_code P nm =
     (case find (\<lambda>i. nm = name_arr ! i) [0..<length (code_arr P)] of
        Some i \<Rightarrow> code_arr P ! i
      | None \<Rightarrow> - 1)"

definition input_function_arity :: "platform \<Rightarrow> wchar \<Rightarrow> nat" where
  "input_function_arity P function =
     (if function = R_FORWARD_JUMP P \<or> function = R_BACKWARD_JUMP P then 1 else 0)"

text \<open>
  A platform for concrete runs: the codes from \<open>0xE000\<close> on, the control characters of
  ASCII and Latin-1, a terminal that sets up and defines the left-arrow key only.
\<close>

definition sample_platform :: platform where
  "sample_platform =
     \<lparr>R_NULL = 0xE000, R_EOF = 0xE001, R_BEGINNING_OF_LINE = 0xE002,
      iswcntrl = (\<lambda>c. c < 0x20 \<or> (0x7F \<le> c \<and> c < 0xA0)),
      widen = map of_char,
      setupterm_ok = True, setupterm_errret = 1, setupterm_ansi_ok = True,
      TERM_missing = False,
      terminfo_key = (\<lambda>k. if k = L ''left'' then Some [CHR 0x1B, CHR ''['', CHR ''D''] else None)\<rparr>"

subsection \<open>The matcher\<close>

definition input_unreadch :: "wchar \<Rightarrow> reader \<Rightarrow> reader" where
  "input_unreadch ch r = input_common_unreadch ch r"

text \<open>
  The loop of \<^verbatim>\<open>input_mapping_is_match\<close> from index \<open>j\<close> on, with \<open>c\<close> the character
  read last. \<open>str\<close> is \<^verbatim>\<open>m.seq.c_str()\<close> without its terminator, so \<^verbatim>\<open>str[j] != L'\0'\<close>
  is \<open>j < length str\<close>. The result is the final \<open>j\<close> and \<open>c\<close> and the reader.
\<close>

function match_chars :: "platform \<Rightarrow> wcstring \<Rightarrow> nat \<Rightarrow> wchar \<Rightarrow> reader \<Rightarrow> nat \<times> wchar \<times> reader" where
  "match_chars P str j c r =
     (if j < length str
      then (case input_common_readch (j > 0 \<and> iswcntrl P (str ! 0)) r of
              (c', r') \<Rightarrow> if str ! j \<noteq> c' then (j, c', r') else match_chars P str (j + 1) c' r')
      else (j, c, r))"
  by pat_completeness auto
termination
  by (relation "measure (\<lambda>(P, str, j, c, r). length str - j)") auto

declare match_chars.simps [simp del]

text \<open>
  \<^verbatim>\<open>input_mapping_is_match\<close>. On a mismatch at \<open>j\<close> it pushes back the character read
  last and then \<^verbatim>\<open>m.seq[k]\<close> for \<open>k\<close> from \<open>j - 1\<close> down to \<open>0\<close>.
\<close>

definition input_mapping_is_match :: "platform \<Rightarrow> input_mapping_t \<Rightarrow> reader \<Rightarrow> bool \<times> reader" where
  "input_mapping_is_match P m r =
     (case match_chars P (c_str (seq m)) 0 0 r of
        (j, c, r') \<Rightarrow>
          if j = length (c_str (seq m)) then (True, r')
          else (False, foldl (\<lambda>r k. input_unreadch (seq m ! k) r) (input_unreadch c r') (rev [0..<j])))"

subsection \<open>The dispatcher\<close>

text \<open>
  How a run of the model can stop short: a write past the end of
  \<^verbatim>\<open>input_function_args\<close>, which C leaves undefined, the exit of the process, and a
  failed \<^verbatim>\<open>assert\<close>.
\<close>

datatype fault = OutOfBounds | ProcessExit | AssertionFailure

text \<open>
  Modelled from the spec: \<^verbatim>\<open>DEFAULT_BIND_MODE\<close> is defined in input.h, which is not
  among the sources; the specification names the initial mode \<^verbatim>\<open>default\<close>.
\<close>

definition DEFAULT_BIND_MODE :: wcstring where
  "DEFAULT_BIND_MODE = L ''default''"

definition input_get_bind_mode :: "input_state \<Rightarrow> wcstring" where
  "input_get_bind_mode s = (case fish_bind_mode s of None \<Rightarrow> DEFAULT_BIND_MODE | Some md \<Rightarrow> md)"

definition input_set_bind_mode :: "wcstring \<Rightarrow> input_state \<Rightarrow> input_state" where
  "input_set_bind_mode bm s = s\<lparr>fish_bind_mode := Some (c_str bm)\<rparr>"

definition input_function_push_arg :: "wchar \<Rightarrow> input_state \<Rightarrow> fault + input_state" where
  "input_function_push_arg arg s =
     (if 0 \<le> input_function_args_index s \<and>
         input_function_args_index s < int MAX_INPUT_FUNCTION_ARGS
      then Inr (s\<lparr>input_function_args :=
                     (input_function_args s)[nat (input_function_args_index s) := arg],
                   input_function_args_index := input_function_args_index s + 1\<rparr>)
      else Inl OutOfBounds)"

text \<open>The loop of \<^verbatim>\<open>input_function_push_args\<close>, with the number of rounds left.\<close>

fun push_args_loop :: "nat \<Rightarrow> input_state \<Rightarrow> fault + input_state" where
  "push_args_loop 0 s = Inr s"
| "push_args_loop (Suc n) s =
     (case input_common_readch False (rd s) of
        (c, r) \<Rightarrow>
          (case input_function_push_arg c (s\<lparr>rd := r\<rparr>) of
             Inl e \<Rightarrow> Inl e
           | Inr s' \<Rightarrow> push_args_loop n s'))"

definition input_function_push_args :: "platform \<Rightarrow> wchar \<Rightarrow> input_state \<Rightarrow> fault + input_state" where
  "input_function_push_args P code s = push_args_loop (input_function_arity P code) s"

text \<open>
  Modelled from the spec: the parser is a collaborator outside the dispatcher (section 1
  of the specification) and is not among the sources. The model records the command
  handed to \<^verbatim>\<open>eval\<close> and leaves out what the command does to the shell.
\<close>

definition parser_eval :: "wcstring \<Rightarrow> input_state \<Rightarrow> input_state" where
  "parser_eval cmd s = s\<lparr>evaluated := evaluated s @ [cmd]\<rparr>"

text \<open>
  The first loop of \<^verbatim>\<open>input_mapping_execute\<close>, over the commands it has still to
  visit: the caller passes them last first.
\<close>

fun capture_args :: "platform \<Rightarrow> wcstring list \<Rightarrow> input_state \<Rightarrow> fault + input_state" where
  "capture_args P [] s = Inr s"
| "capture_args P (command # rest) s =
     (if input_function_get_code P command \<noteq> - 1
      then (case input_function_push_args P (input_function_get_code P command) s of
              Inl e \<Rightarrow> Inl e
            | Inr s' \<Rightarrow> capture_args P rest s')
      else capture_args P rest s)"

text \<open>
  The second loop, again over the commands still to visit, last first, and the call of
  \<^verbatim>\<open>input_set_bind_mode\<close> that follows it. The third branch returns from the function.
\<close>

fun run_commands :: "platform \<Rightarrow> input_mapping_t \<Rightarrow> bool \<Rightarrow> wcstring list \<Rightarrow> input_state \<Rightarrow> input_state" where
  "run_commands P m allow_commands [] s = input_set_bind_mode (sets_mode m) s"
| "run_commands P m allow_commands (command # rest) s =
     (if input_function_get_code P command \<noteq> - 1
      then run_commands P m allow_commands rest
             (s\<lparr>rd := input_unreadch (input_function_get_code P command) (rd s)\<rparr>)
      else if allow_commands
      then run_commands P m allow_commands rest
             (let s' = (parser_eval command s)\<lparr>last_status := last_status s\<rparr>
              in s'\<lparr>rd := input_unreadch (R_NULL P) (rd s')\<rparr>)
      else s\<lparr>rd := input_unreadch (R_NULL P)
                      (foldl (\<lambda>r ch. input_unreadch ch r) (rd s) (rev (seq m)))\<rparr>)"

definition input_mapping_execute :: "platform \<Rightarrow> input_mapping_t \<Rightarrow> bool \<Rightarrow> input_state \<Rightarrow> fault + input_state" where
  "input_mapping_execute P m allow_commands s =
     (case capture_args P (rev (commands m))
             (s\<lparr>input_function_status := True, dispatched := dispatched s @ [m]\<rparr>) of
        Inl e \<Rightarrow> Inl e
      | Inr s' \<Rightarrow> Inr (run_commands P m allow_commands (rev (commands m)) s'))"

subsection \<open>Statements about the dispatcher\<close>

text \<open>
  The number of characters the first loop of \<^verbatim>\<open>input_mapping_execute\<close> captures for a
  list of commands, and the test both loops apply to a command.
\<close>

definition captured :: "platform \<Rightarrow> wcstring list \<Rightarrow> nat" where
  "captured P cmds =
     sum_list (map (\<lambda>cmd. if input_function_get_code P cmd \<noteq> - 1
                          then input_function_arity P (input_function_get_code P cmd) else 0) cmds)"

definition is_function :: "platform \<Rightarrow> wcstring \<Rightarrow> bool" where
  "is_function P cmd = (input_function_get_code P cmd \<noteq> - 1)"

subsection \<open>Match or generic\<close>

text \<open>
  The loop of \<^verbatim>\<open>input_mapping_execute_matching_or_generic\<close> over the bindings still to
  visit, with the generic binding remembered so far, and what follows the loop.
\<close>

fun scan_mappings ::
  "platform \<Rightarrow> bool \<Rightarrow> wcstring \<Rightarrow> input_mapping_t option \<Rightarrow> input_mapping_t list \<Rightarrow> input_state \<Rightarrow>
   fault + input_state" where
  "scan_mappings P allow_commands bind_mode generic [] s =
     (case generic of
        Some g \<Rightarrow> input_mapping_execute P g allow_commands s
      | None \<Rightarrow>
          (case input_common_readch False (rd s) of
             (c, r) \<Rightarrow> Inr (s\<lparr>rd := (if c = R_EOF P then input_common_unreadch c r else r)\<rparr>)))"
| "scan_mappings P allow_commands bind_mode generic (m # ms) s =
     (if mode m \<noteq> bind_mode then scan_mappings P allow_commands bind_mode generic ms s
      else if length (seq m) = 0 then scan_mappings P allow_commands bind_mode (Some m) ms s
      else (case input_mapping_is_match P m (rd s) of
              (True, r) \<Rightarrow> input_mapping_execute P m allow_commands (s\<lparr>rd := r\<rparr>)
            | (False, r) \<Rightarrow> scan_mappings P allow_commands bind_mode generic ms (s\<lparr>rd := r\<rparr>)))"

definition input_mapping_execute_matching_or_generic :: "platform \<Rightarrow> bool \<Rightarrow> input_state \<Rightarrow> fault + input_state" where
  "input_mapping_execute_matching_or_generic P allow_commands s =
     scan_mappings P allow_commands (input_get_bind_mode s) None (mapping_list s) s"

subsection \<open>Statements about the scan\<close>

text \<open>
  \<open>hit P bm r m\<close>: \<open>m\<close> is a binding of the mode \<open>bm\<close> with a non-empty sequence that
  \<^verbatim>\<open>input_mapping_is_match\<close> accepts on the reader \<open>r\<close>. \<open>last_generic bm g ms\<close> is the
  generic binding the loop remembers after the bindings \<open>ms\<close>, starting from \<open>g\<close>.
  \<open>discard_one P X\<close> is what the reads deliver after the read that follows a scan
  without any binding to dispatch, if they delivered \<open>X\<close> before.
\<close>

definition hit :: "platform \<Rightarrow> wcstring \<Rightarrow> reader \<Rightarrow> input_mapping_t \<Rightarrow> bool" where
  "hit P bm r m = (mode m = bm \<and> seq m \<noteq> [] \<and> fst (input_mapping_is_match P m r))"

definition last_generic :: "wcstring \<Rightarrow> input_mapping_t option \<Rightarrow> input_mapping_t list \<Rightarrow> input_mapping_t option" where
  "last_generic bm g ms = foldl (\<lambda>g m. if mode m = bm \<and> seq m = [] then Some m else g) g ms"

definition discard_one :: "platform \<Rightarrow> wchar stream \<Rightarrow> wchar stream" where
  "discard_one P X = (if shd X = R_EOF P then X else stl X)"

subsection \<open>Start-up and the terminfo registry\<close>

text \<open>The names of \<^verbatim>\<open>tinfos\<close>: \<^verbatim>\<open>TERMINFO_ADD(key_x)\<close> names the entry \<^verbatim>\<open>x\<close>.\<close>

definition tinfo_names :: "wcstring list" where
  "tinfo_names =
     [
      L ''a1'', L ''a3'', L ''b2'', L ''backspace'', L ''beg'', L ''btab'', L ''c1'',
      L ''c3'', L ''cancel'', L ''catab'', L ''clear'', L ''close'', L ''command'',
      L ''copy'', L ''create'', L ''ctab'', L ''dc'', L ''dl'', L ''down'', L ''eic'',
      L ''end'', L ''enter'', L ''eol'', L ''eos'', L ''exit'', L ''f0'', L ''f1'',
      L ''f2'', L ''f3'', L ''f4'', L ''f5'', L ''f6'', L ''f7'', L ''f8'', L ''f9'',
      L ''f10'', L ''f11'', L ''f12'', L ''f13'', L ''f14'', L ''f15'', L ''f16'',
      L ''f17'', L ''f18'', L ''f19'', L ''f20'', L ''find'', L ''help'', L ''home'',
      L ''ic'', L ''il'', L ''left'', L ''ll'', L ''mark'', L ''message'', L ''move'',
      L ''next'', L ''npage'', L ''open'', L ''options'', L ''ppage'', L ''previous'',
      L ''print'', L ''redo'', L ''reference'', L ''refresh'', L ''replace'',
      L ''restart'', L ''resume'', L ''right'', L ''save'', L ''sbeg'', L ''scancel'',
      L ''scommand'', L ''scopy'', L ''screate'', L ''sdc'', L ''sdl'', L ''select'',
      L ''send'', L ''seol'', L ''sexit'', L ''sf'', L ''sfind'', L ''shelp'', L ''shome'',
      L ''sic'', L ''sleft'', L ''smessage'', L ''smove'', L ''snext'', L ''soptions'',
      L ''sprevious'', L ''sprint'', L ''sr'', L ''sredo'', L ''sreplace'', L ''sright'',
      L ''srsume'', L ''ssave'', L ''ssuspend'', L ''stab'', L ''sundo'', L ''suspend'',
      L ''undo'', L ''up''
     ]"

definition input_terminfo_init :: "platform \<Rightarrow> input_state \<Rightarrow> input_state" where
  "input_terminfo_init P s =
     s\<lparr>terminfo_mappings :=
         terminfo_mappings s @ map (\<lambda>n. \<lparr>name = n, tseq = terminfo_key P n\<rparr>) tinfo_names\<rparr>"

text \<open>The six default bindings, each added with one command in the default mode.\<close>

definition add_defaults :: "input_state \<Rightarrow> input_state" where
  "add_defaults s =
     run_adds
       [([], [L ''self-insert''], DEFAULT_BIND_MODE, DEFAULT_BIND_MODE),
        ([10], [L ''execute''], DEFAULT_BIND_MODE, DEFAULT_BIND_MODE),
        ([9], [L ''complete''], DEFAULT_BIND_MODE, DEFAULT_BIND_MODE),
        ([3], [L ''commandline '' @ [34, 34]], DEFAULT_BIND_MODE, DEFAULT_BIND_MODE),
        ([4], [L ''exit''], DEFAULT_BIND_MODE, DEFAULT_BIND_MODE),
        ([5], [L ''bind''], DEFAULT_BIND_MODE, DEFAULT_BIND_MODE)] s"

text \<open>
  \<^verbatim>\<open>input_init\<close>. What it does to other modules (the interrupt handler, the terminal
  of the output module, the colour support, the variable \<^verbatim>\<open>TERM\<close>) is outside the
  state; its two exits, after a failed \<^verbatim>\<open>setupterm\<close>, and its assertion are results.
\<close>

definition input_init :: "platform \<Rightarrow> input_state \<Rightarrow> fault + input_state" where
  "input_init P s =
     (if is_init s then Inr s
      else if \<not> setupterm_ok P \<and> setupterm_errret P = 0 \<and> \<not> setupterm_ansi_ok P
      then Inl ProcessExit
      else if \<not> setupterm_ok P \<and> setupterm_errret P \<noteq> 0
      then Inl ProcessExit
      else if TERM_missing P then Inl AssertionFailure
      else (let s' = input_terminfo_init P (s\<lparr>is_init := True\<rparr>)
            in Inr (if mapping_list s' = [] then add_defaults s' else s')))"

text \<open>
  \<^verbatim>\<open>input_terminfo_get_sequence\<close> for a non-null \<^verbatim>\<open>name\<close>. The answer \<open>None\<close> is
  the return value \<^verbatim>\<open>false\<close>, which leaves \<^verbatim>\<open>*out_seq\<close> alone; \<open>Some w\<close> is
  \<^verbatim>\<open>true\<close> with \<open>w\<close> stored in \<^verbatim>\<open>*out_seq\<close>.
\<close>

definition input_terminfo_get_sequence ::
  "platform \<Rightarrow> wcstring \<Rightarrow> input_state \<Rightarrow> fault + (wcstring option \<times> input_state)" where
  "input_terminfo_get_sequence P nm s =
     (case input_init P s of
        Inl e \<Rightarrow> Inl e
      | Inr s' \<Rightarrow>
          (case (case find (\<lambda>i. nm = name (terminfo_mappings s' ! i))
                        [0..<length (terminfo_mappings s')] of
                   Some i \<Rightarrow> (tseq (terminfo_mappings s' ! i), EILSEQ)
                 | None \<Rightarrow> (None, ENOENT)) of
             (None, err) \<Rightarrow> Inr (None, s'\<lparr>errno := err\<rparr>)
           | (Some res, err) \<Rightarrow> Inr (Some (widen P res), s')))"

text \<open>The registry read as an association list: the first entry of a name decides.\<close>

definition terminfo_registry :: "input_state \<Rightarrow> wcstring \<rightharpoonup> string option" where
  "terminfo_registry s = map_of (map (\<lambda>m. (name m, tseq m)) (terminfo_mappings s))"

subsection \<open>Concrete inputs\<close>

text \<open>
  A binding of the up-arrow sequence \<^verbatim>\<open>ESC [ A\<close>, and a reader whose terminal delivers
  the down-arrow sequence \<^verbatim>\<open>ESC [ B\<close> and then newlines.
\<close>

definition up_arrow :: input_mapping_t where
  "up_arrow = \<lparr>seq = [0x1B, 0x5B, 0x41], commands = [L ''up-line''], specification_order = 1,
     mode = L ''default'', sets_mode = L ''default''\<rparr>"

definition down_typed :: reader where
  "down_typed = \<lparr>lookahead = [], terminal = [0x1B, 0x5B, 0x42] @- sconst 0x0A, read_log = []\<rparr>"

text \<open>
  A binding of \<^verbatim>\<open>q\<close> to a shell command followed by \<^verbatim>\<open>forward-jump\<close>, and the state
  at program start with a terminal that delivers \<^verbatim>\<open>x\<close> and then newlines.
\<close>

definition echo_then_jump :: input_mapping_t where
  "echo_then_jump = \<lparr>seq = L ''q'', commands = [L ''echo hi'', L ''forward-jump''],
     specification_order = 1, mode = L ''default'', sets_mode = L ''insert''\<rparr>"

definition x_typed :: input_state where
  "x_typed = initial_state ([0x78] @- sconst 0x0A)"

text \<open>
  A table of three bindings: newline in the default mode, \<^verbatim>\<open>a\<close> in the mode
  \<^verbatim>\<open>insert\<close>, and the generic binding of the default mode. \<open>typed_a\<close> has the table,
  no bind mode set, and a terminal that delivers \<^verbatim>\<open>a\<close>; \<open>typed_a_done\<close> is that state
  after the generic binding has been dispatched. \<open>typed_b_insert\<close> has the table, the bind
  mode \<^verbatim>\<open>insert\<close> and a terminal that delivers \<^verbatim>\<open>b\<close>.
\<close>

definition newline_binding :: input_mapping_t where
  "newline_binding = \<lparr>seq = [0x0A], commands = [L ''execute''], specification_order = 2,
     mode = L ''default'', sets_mode = L ''default''\<rparr>"

definition insert_a :: input_mapping_t where
  "insert_a = \<lparr>seq = [0x61], commands = [L ''kill-line''], specification_order = 1,
     mode = L ''insert'', sets_mode = L ''insert''\<rparr>"

definition generic_binding :: input_mapping_t where
  "generic_binding = \<lparr>seq = [], commands = [L ''self-insert''], specification_order = 3,
     mode = L ''default'', sets_mode = L ''default''\<rparr>"

definition typed_a :: input_state where
  "typed_a =
     run_adds [([0x61], [L ''kill-line''], L ''insert'', L ''insert''),
               ([0x0A], [L ''execute''], L ''default'', L ''default''),
               ([], [L ''self-insert''], L ''default'', L ''default'')]
       (initial_state ([0x61] @- sconst 0x0A))"

definition typed_b_insert :: input_state where
  "typed_b_insert =
     typed_a\<lparr>fish_bind_mode := Some (L ''insert''),
             rd := \<lparr>lookahead = [], terminal = [0x62] @- sconst 0x0A, read_log = []\<rparr>\<rparr>"

definition typed_a_done :: input_state where
  "typed_a_done =
     typed_a\<lparr>input_function_status := True, dispatched := [generic_binding],
             rd := \<lparr>lookahead = [0xE01A, 0x61], terminal = sconst 0x0A, read_log = [False]\<rparr>,
             fish_bind_mode := Some (L ''default'')\<rparr>"

text \<open>
  The state at program start after \<^verbatim>\<open>input_terminfo_init\<close> on the sample platform, before
  the default bindings are added.
\<close>

definition started :: input_state where
  "started = input_terminfo_init sample_platform ((initial_state (sconst 0x0A))\<lparr>is_init := True\<rparr>)"

section \<open>Properties\<close>

subsection \<open>The binding table\<close>

lemma find_index_absent:
  "(q, md) \<notin> binding_key ` set ms \<Longrightarrow>
   find (\<lambda>i. seq (ms ! i) = q \<and> mode (ms ! i) = md) [0..<length ms] = None"
  by (auto simp: find_None_iff binding_key_def image_iff)

lemma find_index_present:
  assumes "i < length ms" "binding_key (ms ! i) = (q, md)" "distinct (map binding_key ms)"
  shows "find (\<lambda>i. seq (ms ! i) = q \<and> mode (ms ! i) = md) [0..<length ms] = Some i"
proof -
  have "\<not> (seq (ms ! j) = q \<and> mode (ms ! j) = md)" if "j < i" for j
  proof
    assume "seq (ms ! j) = q \<and> mode (ms ! j) = md"
    then have "binding_key (ms ! j) = binding_key (ms ! i)"
      using assms by (simp add: binding_key_def)
    then have "map binding_key ms ! j = map binding_key ms ! i"
      using assms that by simp
    moreover have "j < length (map binding_key ms)" "i < length (map binding_key ms)"
      using assms that by simp_all
    ultimately have "j = i"
      using assms(3) nth_eq_iff_index_eq by blast
    then show False using that by simp
  qed
  then show ?thesis
    using assms by (auto simp: find_Some_iff binding_key_def intro!: exI[of _ i])
qed

lemma find_index_cases:
  "find (\<lambda>i. seq (ms ! i) = q \<and> mode (ms ! i) = md) [0..<length ms] = None \<and>
     (q, md) \<notin> binding_key ` set ms \<or>
   (\<exists>i < length ms. binding_key (ms ! i) = (q, md) \<and>
     find (\<lambda>i. seq (ms ! i) = q \<and> mode (ms ! i) = md) [0..<length ms] = Some i)"
proof (cases "find (\<lambda>i. seq (ms ! i) = q \<and> mode (ms ! i) = md) [0..<length ms]")
  case None
  then have "(q, md) \<notin> binding_key ` set ms"
    by (auto simp: find_None_iff binding_key_def in_set_conv_nth)
  with None show ?thesis by simp
next
  case (Some i)
  then have "i < length ms \<and> binding_key (ms ! i) = (q, md)"
    by (auto simp: find_Some_iff binding_key_def)
  with Some show ?thesis by auto
qed

lemma add_existing:
  assumes "i < length (mapping_list st)" "binding_key (mapping_list st ! i) = (q, md)"
    "distinct (map binding_key (mapping_list st))"
  shows "input_mapping_add q c md sm st =
         st\<lparr>mapping_list := (mapping_list st)[i := (mapping_list st ! i)\<lparr>commands := c, sets_mode := sm\<rparr>]\<rparr>"
  using find_index_present[OF assms] by (simp add: input_mapping_add_def)

lemma add_new:
  assumes "(q, md) \<notin> binding_key ` set (mapping_list st)"
  shows "\<exists>loc. input_mapping_add q c md sm st =
         st\<lparr>s_last_input_mapping_specification_order := s_last_input_mapping_specification_order st + 1,
            mapping_list := take loc (mapping_list st) @
              \<lparr>seq = q, commands = c,
               specification_order = s_last_input_mapping_specification_order st + 1,
               mode = md, sets_mode = sm\<rparr> # drop loc (mapping_list st)\<rparr>"
  using find_index_absent[OF assms]
  by (simp add: input_mapping_add_def new_input_mapping_def input_mapping_insert_sorted_def Let_def) blast

lemma distinct_insert_mid: "distinct (as @ b # cs) = (b \<notin> set (as @ cs) \<and> distinct (as @ cs))"
  by auto

lemma distinct_map_insert_at:
  "distinct (map f (take n xs @ x # drop n xs)) = (f x \<notin> f ` set xs \<and> distinct (map f xs))"
proof -
  have "map f (take n xs) @ map f (drop n xs) = map f xs"
    by (metis append_take_drop_id map_append)
  then show ?thesis
    using distinct_insert_mid[of "map f (take n xs)" "f x" "map f (drop n xs)"] by simp
qed

lemma set_insert_at: "set (take n xs @ x # drop n xs) = insert x (set xs)"
proof -
  have "set (take n xs) \<union> set (drop n xs) = set xs"
    by (metis append_take_drop_id set_append)
  then show ?thesis by auto
qed

lemma length_insert_at: "length (take n xs @ x # drop n xs) = Suc (length xs)"
  by (metis append_take_drop_id length_Cons length_append add_Suc_right)

lemma map_key_update:
  "i < length ms \<Longrightarrow> map binding_key (ms[i := (ms ! i)\<lparr>commands := c, sets_mode := sm\<rparr>]) = map binding_key ms"
  by (simp add: list_eq_iff_nth_eq nth_list_update binding_key_def)

lemma table_inv_add: "table_inv st \<Longrightarrow> table_inv (input_mapping_add q c md sm st)"
proof -
  assume inv: "table_inv st"
  let ?ms = "mapping_list st"
  let ?n = "s_last_input_mapping_specification_order st"
  from find_index_cases[of ?ms q md] show ?thesis
  proof (elim disjE conjE exE)
    fix i assume i: "i < length ?ms" "binding_key (?ms ! i) = (q, md)"
    have d: "distinct (map binding_key ?ms)" using inv by (simp add: table_inv_def)
    have "\<forall>m \<in> set (?ms[i := (?ms ! i)\<lparr>commands := c, sets_mode := sm\<rparr>]). specification_order m \<le> ?n"
      if "\<forall>m \<in> set ?ms. specification_order m \<le> ?n"
      using that i(1) by (auto simp: in_set_conv_nth nth_list_update split: if_splits) (metis nth_mem)+
    then show ?thesis
      using inv i by (auto simp: add_existing[OF i d] table_inv_def map_key_update)
  next
    assume new: "(q, md) \<notin> binding_key ` set ?ms"
    obtain loc where eq: "input_mapping_add q c md sm st =
         st\<lparr>s_last_input_mapping_specification_order := ?n + 1,
            mapping_list := take loc ?ms @
              \<lparr>seq = q, commands = c, specification_order = ?n + 1,
               mode = md, sets_mode = sm\<rparr> # drop loc ?ms\<rparr>"
      using add_new[OF new] by blast
    let ?new = "\<lparr>seq = q, commands = c, specification_order = ?n + 1, mode = md, sets_mode = sm\<rparr>"
    have k: "binding_key ?new = (q, md)" by (simp add: binding_key_def)
    have d: "distinct (map binding_key (take loc ?ms @ ?new # drop loc ?ms))"
      unfolding distinct_map_insert_at k using inv new by (simp add: table_inv_def)
    have len: "length (take loc ?ms @ ?new # drop loc ?ms) = Suc (length ?ms)"
      by (rule length_insert_at)
    have rest: "unat (?n + 1) = Suc (length ?ms) \<and>
        (\<forall>m \<in> set (take loc ?ms @ ?new # drop loc ?ms). specification_order m \<le> ?n + 1)"
      if small: "Suc (length ?ms) < 2 ^ 32"
    proof -
      have u: "unat ?n = length ?ms" and o: "\<forall>m \<in> set ?ms. specification_order m \<le> ?n"
        using inv small by (auto simp: table_inv_def)
      have u1: "unat (?n + 1) = Suc (length ?ms)"
        using u small by (simp add: unat_word_ariths)
      have "?n \<le> ?n + 1" using u u1 by (simp add: word_le_nat_alt)
      then have "\<forall>m \<in> set ?ms. specification_order m \<le> ?n + 1"
        using o by auto
      then show ?thesis unfolding set_insert_at using u1 by simp
    qed
    show ?thesis
      unfolding eq table_inv_def using d len rest by simp
  qed
qed

lemma table_inv_run_adds: "table_inv st \<Longrightarrow> table_inv (run_adds ops st)"
  by (induction ops st rule: run_adds.induct) (simp_all add: table_inv_add)

lemma table_inv_initial: "table_inv (initial_state t)"
  by (simp add: table_inv_def initial_state_def)

lemma word32_of_nat_inj:
  "a < 2 ^ 32 \<Longrightarrow> b < 2 ^ 32 \<Longrightarrow> (of_nat a :: 32 word) = of_nat b \<Longrightarrow> a = b"
  by (simp add: word_of_nat_eq_iff take_bit_nat_eq_self)

lemma nth_key_inj:
  assumes "k < 2 ^ 32" "k' < 2 ^ 32" "nth_key k = nth_key k'"
  shows "k = k'"
proof -
  have m: "k mod 65536 < 2 ^ 32" "k' mod 65536 < 2 ^ 32"
    by (simp_all add: less_trans[OF mod_less_divisor])
  have d: "k div 65536 < 2 ^ 32" "k' div 65536 < 2 ^ 32"
    using assms(1,2) by (simp_all add: div_less_iff_less_mult)
  have "(of_nat (k mod 65536) :: 32 word) = of_nat (k' mod 65536)"
    and "(of_nat (k div 65536) :: 32 word) = of_nat (k' div 65536)"
    using assms(3) by (simp_all add: nth_key_def)
  then have "k mod 65536 = k' mod 65536" "k div 65536 = k' div 65536"
    using m d word32_of_nat_inj by blast+
  then show ?thesis
    by (metis div_mult_mod_eq)
qed

lemma run_adds_append: "run_adds (xs @ ys) st = run_adds ys (run_adds xs st)"
  by (induction xs st rule: run_adds.induct) simp_all

lemma many_adds_Suc:
  "run_adds (many_adds (Suc n)) st =
   input_mapping_add (nth_key n) [L ''yank''] (L ''default'') (L ''default'') (run_adds (many_adds n) st)"
  by (simp add: many_adds_def run_adds_append)

lemma many_adds_state:
  "n \<le> 2 ^ 32 \<Longrightarrow>
   s_last_input_mapping_specification_order (run_adds (many_adds n) (initial_state t)) = of_nat n \<and>
   set (mapping_list (run_adds (many_adds n) (initial_state t))) = nth_binding ` {0..<n}"
proof (induction n)
  case 0
  then show ?case by (simp add: many_adds_def initial_state_def)
next
  case (Suc n)
  let ?st = "run_adds (many_adds n) (initial_state t)"
  have ih: "s_last_input_mapping_specification_order ?st = of_nat n"
      "set (mapping_list ?st) = nth_binding ` {0..<n}"
    using Suc by simp_all
  have new: "(nth_key n, L ''default'') \<notin> binding_key ` set (mapping_list ?st)"
  proof
    assume "(nth_key n, L ''default'') \<in> binding_key ` set (mapping_list ?st)"
    then obtain k where "k < n" "nth_key k = nth_key n"
      unfolding ih by (auto simp: binding_key_def nth_binding_def)
    then show False using nth_key_inj[of k n] Suc.prems by simp
  qed
  obtain loc where eq: "input_mapping_add (nth_key n) [L ''yank''] (L ''default'') (L ''default'') ?st =
      ?st\<lparr>s_last_input_mapping_specification_order := s_last_input_mapping_specification_order ?st + 1,
          mapping_list := take loc (mapping_list ?st) @
            \<lparr>seq = nth_key n, commands = [L ''yank''],
             specification_order = s_last_input_mapping_specification_order ?st + 1,
             mode = L ''default'', sets_mode = L ''default''\<rparr> # drop loc (mapping_list ?st)\<rparr>"
    using add_new[OF new] by blast
  have nb: "\<lparr>seq = nth_key n, commands = [L ''yank''],
             specification_order = s_last_input_mapping_specification_order ?st + 1,
             mode = L ''default'', sets_mode = L ''default''\<rparr> = nth_binding n"
    by (simp add: nth_binding_def ih)
  have "{0..<Suc n} = insert n {0..<n}" by auto
  then show ?case
    unfolding many_adds_Suc eq nb by (simp add: set_insert_at ih del: set_append)
qed

text \<open>
  C4, as amended. After any run of calls of \<^verbatim>\<open>input_mapping_add\<close> from program start,
  the table holds at most one binding for each pair of sequence and mode. Adding a pair
  that the binding at index \<open>i\<close> has overwrites the commands and \<^verbatim>\<open>sets_mode\<close> of that
  binding and nothing else: its index, its stamp and the counter stay. Adding a pair that
  no binding has increments the counter, stamps a new binding with it and inserts it,
  the others keeping their order; while the table has fewer than \<open>2 ^ 32 - 1\<close> bindings
  the new stamp is strictly larger than every stamp in the table.
\<close>

theorem add_one_binding_per_key:
  "distinct (map binding_key (mapping_list (run_adds ops (initial_state t)))) \<and>
   (\<forall>i. i < length (mapping_list (run_adds ops (initial_state t))) \<and>
        binding_key (mapping_list (run_adds ops (initial_state t)) ! i) = (q, md) \<longrightarrow>
      input_mapping_add q c md sm (run_adds ops (initial_state t)) =
      (run_adds ops (initial_state t))
        \<lparr>mapping_list := (mapping_list (run_adds ops (initial_state t)))
           [i := (mapping_list (run_adds ops (initial_state t)) ! i)\<lparr>commands := c, sets_mode := sm\<rparr>]\<rparr>) \<and>
   ((q, md) \<notin> binding_key ` set (mapping_list (run_adds ops (initial_state t))) \<longrightarrow>
      (\<exists>loc. input_mapping_add q c md sm (run_adds ops (initial_state t)) =
         (run_adds ops (initial_state t))
           \<lparr>s_last_input_mapping_specification_order :=
              s_last_input_mapping_specification_order (run_adds ops (initial_state t)) + 1,
            mapping_list := take loc (mapping_list (run_adds ops (initial_state t))) @
              \<lparr>seq = q, commands = c,
               specification_order =
                 s_last_input_mapping_specification_order (run_adds ops (initial_state t)) + 1,
               mode = md, sets_mode = sm\<rparr> # drop loc (mapping_list (run_adds ops (initial_state t)))\<rparr>) \<and>
      (length (mapping_list (run_adds ops (initial_state t))) < 2 ^ 32 - 1 \<longrightarrow>
         (\<forall>m \<in> set (mapping_list (run_adds ops (initial_state t))).
            specification_order m <
            s_last_input_mapping_specification_order (run_adds ops (initial_state t)) + 1)))"
proof -
  let ?st = "run_adds ops (initial_state t)"
  let ?n = "s_last_input_mapping_specification_order ?st"
  have inv: "table_inv ?st"
    by (rule table_inv_run_adds[OF table_inv_initial])
  then have d: "distinct (map binding_key (mapping_list ?st))"
    by (simp add: table_inv_def)
  have larger: "\<forall>m \<in> set (mapping_list ?st). specification_order m < ?n + 1"
    if small: "length (mapping_list ?st) < 2 ^ 32 - 1"
  proof -
    have u: "unat ?n = length (mapping_list ?st)"
      and o: "\<forall>m \<in> set (mapping_list ?st). specification_order m \<le> ?n"
      using inv small by (auto simp: table_inv_def)
    have "unat (?n + 1) = Suc (unat ?n)"
      using u small by (simp add: unat_word_ariths)
    then have "?n < ?n + 1" by (simp add: word_less_nat_alt)
    then show ?thesis using o by auto
  qed
  show ?thesis
    using d add_existing[OF _ _ d, of _ q md c sm] add_new[of q md ?st c sm] larger
    by blast
qed

lemma one_binding_table:
  "mapping_list one_binding =
     [\<lparr>seq = L ''a'', commands = [L ''yank''], specification_order = 1,
       mode = L ''default'', sets_mode = L ''default''\<rparr>]"
  "s_last_input_mapping_specification_order one_binding = 1"
  by (simp_all add: one_binding_def initial_state_def input_mapping_add_def new_input_mapping_def
      input_mapping_insert_sorted_def lower_bound.simps)

theorem add_one_binding_per_key_witness:
  "distinct (map binding_key (mapping_list one_binding)) \<and>
   0 < length (mapping_list one_binding) \<and>
   binding_key (mapping_list one_binding ! 0) = (L ''a'', L ''default'') \<and>
   mapping_list (input_mapping_add (L ''a'') [L ''kill-line''] (L ''default'') (L ''insert'') one_binding) =
     [\<lparr>seq = L ''a'', commands = [L ''kill-line''], specification_order = 1,
       mode = L ''default'', sets_mode = L ''insert''\<rparr>] \<and>
   (L ''b'', L ''default'') \<notin> binding_key ` set (mapping_list one_binding) \<and>
   length (mapping_list one_binding) < 2 ^ 32 - 1 \<and>
   specification_order (mapping_list one_binding ! 0) <
     s_last_input_mapping_specification_order one_binding + 1"
proof -
  have k: "0 < length (mapping_list one_binding) \<and>
      binding_key (mapping_list one_binding ! 0) = (L ''a'', L ''default'')"
    by (simp add: one_binding_table binding_key_def)
  have n: "(L ''b'', L ''default'') \<notin> binding_key ` set (mapping_list one_binding)"
    by (simp add: one_binding_table binding_key_def L_def)
  have s: "length (mapping_list one_binding) < 2 ^ 32 - 1"
    by (simp add: one_binding_table)
  have "distinct (map binding_key (mapping_list one_binding))"
    using add_one_binding_per_key[of "[(L ''a'', [L ''yank''], L ''default'', L ''default'')]" "sconst 0x0A"]
    by (simp add: one_binding_def)
  moreover have "mapping_list (input_mapping_add (L ''a'') [L ''kill-line''] (L ''default'') (L ''insert'') one_binding) =
     [\<lparr>seq = L ''a'', commands = [L ''kill-line''], specification_order = 1,
       mode = L ''default'', sets_mode = L ''insert''\<rparr>]"
    using add_one_binding_per_key[of "[(L ''a'', [L ''yank''], L ''default'', L ''default'')]" "sconst 0x0A"
        "L ''a''" "L ''default''" "[L ''kill-line'']" "L ''insert''"] k
    unfolding one_binding_def[symmetric] by (simp add: one_binding_table)
  moreover have "specification_order (mapping_list one_binding ! 0) <
     s_last_input_mapping_specification_order one_binding + 1"
    using add_one_binding_per_key[of "[(L ''a'', [L ''yank''], L ''default'', L ''default'')]" "sconst 0x0A"
        "L ''b''" "L ''default''"] n s
    unfolding one_binding_def[symmetric] by (simp add: one_binding_table)
  ultimately show ?thesis using k n s by blast
qed

text \<open>
  The counter is an \<^verbatim>\<open>unsigned int\<close>. After \<open>2 ^ 32 - 1\<close> new bindings it is
  \<open>2 ^ 32 - 1\<close>, and the next new binding is stamped \<open>0\<close>, below the stamp \<open>1\<close> of
  the first binding, which is still in the table.
\<close>

theorem specification_order_wraps:
  "nth_binding 0 \<in> set (mapping_list (run_adds (many_adds (2 ^ 32 - 1)) (initial_state (sconst 0x0A)))) \<and>
   specification_order (nth_binding 0) = 1 \<and>
   (nth_key (2 ^ 32 - 1), L ''default'') \<notin>
     binding_key ` set (mapping_list (run_adds (many_adds (2 ^ 32 - 1)) (initial_state (sconst 0x0A)))) \<and>
   nth_binding (2 ^ 32 - 1) \<in> set (mapping_list
     (input_mapping_add (nth_key (2 ^ 32 - 1)) [L ''yank''] (L ''default'') (L ''default'')
        (run_adds (many_adds (2 ^ 32 - 1)) (initial_state (sconst 0x0A))))) \<and>
   specification_order (nth_binding (2 ^ 32 - 1)) = 0"
proof -
  let ?n = "2 ^ 32 - 1 :: nat"
  let ?st = "run_adds (many_adds ?n) (initial_state (sconst 0x0A))"
  have a: "set (mapping_list ?st) = nth_binding ` {0..<?n}"
    using many_adds_state[of ?n "sconst 0x0A"] by simp
  have b: "set (mapping_list (run_adds (many_adds (Suc ?n)) (initial_state (sconst 0x0A)))) =
      nth_binding ` {0..<Suc ?n}"
    using many_adds_state[of "Suc ?n" "sconst 0x0A"] by simp
  have 1: "nth_binding 0 \<in> set (mapping_list ?st)"
    unfolding a by simp
  have 3: "(nth_key ?n, L ''default'') \<notin> binding_key ` set (mapping_list ?st)"
  proof
    assume "(nth_key ?n, L ''default'') \<in> binding_key ` set (mapping_list ?st)"
    then obtain k where "k < ?n" "nth_key k = nth_key ?n"
      unfolding a by (auto simp: binding_key_def nth_binding_def)
    then show False using nth_key_inj[of k ?n] by simp
  qed
  have 4: "nth_binding ?n \<in> set (mapping_list
     (input_mapping_add (nth_key ?n) [L ''yank''] (L ''default'') (L ''default'') ?st))"
    using b unfolding many_adds_Suc by simp
  have 2: "specification_order (nth_binding 0) = 1"
    and 5: "specification_order (nth_binding ?n) = 0"
    by (simp_all add: nth_binding_def)
  from 1 2 3 4 5 show ?thesis by blast
qed

text \<open>
  The binary search finds the partition point of a range that \<open>cmp\<close> partitions, so an
  insertion keeps a table in descending length, and so does every run of calls of
  \<^verbatim>\<open>input_mapping_add\<close> from program start.
\<close>

lemma lower_bound_spec:
  assumes "\<forall>i j. first \<le> i \<and> i \<le> j \<and> j < first + len \<and> cmp (xs ! j) v \<longrightarrow> cmp (xs ! i) v"
  shows "first \<le> lower_bound cmp xs v first len \<and>
         lower_bound cmp xs v first len \<le> first + len \<and>
         (\<forall>i. first \<le> i \<and> i < lower_bound cmp xs v first len \<longrightarrow> cmp (xs ! i) v) \<and>
         (\<forall>i. lower_bound cmp xs v first len \<le> i \<and> i < first + len \<longrightarrow> \<not> cmp (xs ! i) v)"
  using assms
proof (induction cmp xs v first len rule: lower_bound.induct)
  case (1 cmp xs v first len)
  let ?mid = "first + len div 2"
  show ?case
  proof (cases "0 < len")
    case False
    then have "lower_bound cmp xs v first len = first"
      by (subst lower_bound.simps) simp
    then show ?thesis using False by auto
  next
    case pos: True
    show ?thesis
    proof (cases "cmp (xs ! ?mid) v")
      case True
      let ?r = "lower_bound cmp xs v (?mid + 1) (len - len div 2 - 1)"
      have eq: "lower_bound cmp xs v first len = ?r"
        using pos True by (simp add: lower_bound.simps[of cmp xs v first len])
      have e: "?mid + 1 + (len - len div 2 - 1) = first + len"
        using pos by simp
      have part: "\<forall>i j. ?mid + 1 \<le> i \<and> i \<le> j \<and> j < ?mid + 1 + (len - len div 2 - 1) \<and>
          cmp (xs ! j) v \<longrightarrow> cmp (xs ! i) v"
        using "1.prems" unfolding e by auto
      note ih = "1.IH"(1)[OF pos True part, unfolded e]
      have low: "cmp (xs ! i) v" if "first \<le> i" "i \<le> ?mid" for i
      proof -
        have "?mid < first + len" using pos by simp
        then have "first \<le> i \<and> i \<le> ?mid \<and> ?mid < first + len \<and> cmp (xs ! ?mid) v"
          using that True by simp
        then show ?thesis using "1.prems" by blast
      qed
      have "cmp (xs ! i) v" if "first \<le> i" "i < ?r" for i
      proof (cases "i \<le> ?mid")
        case True
        then show ?thesis using low that by simp
      next
        case False
        then show ?thesis using ih that by simp
      qed
      then show ?thesis
        unfolding eq using ih by auto
    next
      case False
      let ?r = "lower_bound cmp xs v first (len div 2)"
      have eq: "lower_bound cmp xs v first len = ?r"
        using pos False by (simp add: lower_bound.simps[of cmp xs v first len])
      have part: "\<forall>i j. first \<le> i \<and> i \<le> j \<and> j < first + len div 2 \<and>
          cmp (xs ! j) v \<longrightarrow> cmp (xs ! i) v"
      proof (intro allI impI)
        fix i j
        assume a: "first \<le> i \<and> i \<le> j \<and> j < first + len div 2 \<and> cmp (xs ! j) v"
        have "len div 2 \<le> len" by simp
        with a have "j < first + len" by linarith
        then have "first \<le> i \<and> i \<le> j \<and> j < first + len \<and> cmp (xs ! j) v"
          using a by simp
        then show "cmp (xs ! i) v" using "1.prems" by blast
      qed
      note ih = "1.IH"(2)[OF pos False part]
      have high: "\<not> cmp (xs ! i) v" if "?mid \<le> i" "i < first + len" for i
      proof
        assume "cmp (xs ! i) v"
        then have "first \<le> ?mid \<and> ?mid \<le> i \<and> i < first + len \<and> cmp (xs ! i) v"
          using that by simp
        then have "cmp (xs ! ?mid) v" using "1.prems" by blast
        then show False using False by simp
      qed
      have "\<not> cmp (xs ! i) v" if "?r \<le> i" "i < first + len" for i
      proof (cases "i < ?mid")
        case True
        then show ?thesis using ih that by simp
      next
        case False
        then show ?thesis using high that by simp
      qed
      then show ?thesis
        unfolding eq using ih by auto
    qed
  qed
qed

lemma descending_nth:
  "descending_length ms \<longleftrightarrow>
   (\<forall>i j. i < j \<and> j < length ms \<longrightarrow> length (seq (ms ! j)) \<le> length (seq (ms ! i)))"
  by (auto simp: descending_length_def sorted_wrt_iff_nth_less)

lemma insert_sorted_keeps_descending:
  assumes "descending_length (mapping_list st)"
  shows "descending_length (mapping_list (input_mapping_insert_sorted new_mapping st))"
proof -
  let ?ms = "mapping_list st"
  let ?loc = "lower_bound length_is_greater_than ?ms new_mapping 0 (length ?ms)"
  have part: "\<forall>i j. 0 \<le> i \<and> i \<le> j \<and> j < 0 + length ?ms \<and>
      length_is_greater_than (?ms ! j) new_mapping \<longrightarrow> length_is_greater_than (?ms ! i) new_mapping"
  proof (intro allI impI)
    fix i j
    assume a: "0 \<le> i \<and> i \<le> j \<and> j < 0 + length ?ms \<and> length_is_greater_than (?ms ! j) new_mapping"
    show "length_is_greater_than (?ms ! i) new_mapping"
    proof (cases "i = j")
      case True
      then show ?thesis using a by simp
    next
      case False
      then have "length (seq (?ms ! j)) \<le> length (seq (?ms ! i))"
        using a assms unfolding descending_nth by simp
      then show ?thesis using a by (simp add: length_is_greater_than_def)
    qed
  qed
  from lower_bound_spec[of 0 "length ?ms" length_is_greater_than ?ms new_mapping, OF part] have
    le: "?loc \<le> length ?ms" and
    before: "\<forall>i. i < ?loc \<longrightarrow> length (seq new_mapping) < length (seq (?ms ! i))" and
    after: "\<forall>i. ?loc \<le> i \<and> i < length ?ms \<longrightarrow> length (seq (?ms ! i)) \<le> length (seq new_mapping)"
    by (auto simp: length_is_greater_than_def not_less)
  let ?R = "\<lambda>m1 m2. length (seq m2) \<le> length (seq m1)"
  have s: "sorted_wrt ?R ?ms"
    using assms by (simp add: descending_length_def)
  then have st: "sorted_wrt ?R (take ?loc ?ms)" and sd: "sorted_wrt ?R (drop ?loc ?ms)"
    and cross: "\<forall>x \<in> set (take ?loc ?ms). \<forall>y \<in> set (drop ?loc ?ms). ?R x y"
    using sorted_wrt_append[of ?R "take ?loc ?ms" "drop ?loc ?ms"] by simp_all
  have tk: "\<forall>x \<in> set (take ?loc ?ms). ?R x new_mapping"
    using before le by (auto simp: in_set_conv_nth less_imp_le)
  have dr: "\<forall>y \<in> set (drop ?loc ?ms). ?R new_mapping y"
  proof
    fix y assume "y \<in> set (drop ?loc ?ms)"
    then obtain k where k: "k < length ?ms - ?loc" "y = ?ms ! (?loc + k)"
      by (auto simp: in_set_conv_nth)
    then have "?loc \<le> ?loc + k \<and> ?loc + k < length ?ms" by simp
    then show "?R new_mapping y" using after k(2) by blast
  qed
  have "sorted_wrt ?R (take ?loc ?ms @ new_mapping # drop ?loc ?ms)"
    unfolding sorted_wrt_append using st sd cross tk dr by simp
  then show ?thesis
    by (simp add: input_mapping_insert_sorted_def descending_length_def Let_def)
qed

lemma add_keeps_descending:
  assumes "descending_length (mapping_list st)"
  shows "descending_length (mapping_list (input_mapping_add q c md sm st))"
proof (cases "find (\<lambda>i. seq (mapping_list st ! i) = q \<and> mode (mapping_list st ! i) = md)
                [0..<length (mapping_list st)]")
  case None
  have "descending_length (mapping_list
      (st\<lparr>s_last_input_mapping_specification_order := s_last_input_mapping_specification_order st + 1\<rparr>))"
    using assms by simp
  from insert_sorted_keeps_descending[OF this] None show ?thesis
    by (simp add: input_mapping_add_def new_input_mapping_def Let_def)
next
  case (Some i)
  then have i: "i < length (mapping_list st)"
    by (auto simp: find_Some_iff)
  have "descending_length
      ((mapping_list st)[i := (mapping_list st ! i)\<lparr>commands := c, sets_mode := sm\<rparr>])"
    using assms i unfolding descending_nth by (simp add: nth_list_update)
  then show ?thesis
    using Some by (simp add: input_mapping_add_def)
qed

lemma adds_keep_descending:
  "descending_length (mapping_list st) \<Longrightarrow> descending_length (mapping_list (run_adds ops st))"
  by (induction ops st rule: run_adds.induct) (simp_all add: add_keeps_descending)

lemma adds_from_start_descending:
  "descending_length (mapping_list (run_adds ops (initial_state t)))"
  by (rule adds_keep_descending) (simp add: initial_state_def descending_length_def)

text \<open>
  C1. Calls of \<^verbatim>\<open>input_mapping_add\<close> keep the table in descending length, as the
  lemmas above show, and leave \<open>three_bindings\<close> with the sequences \<^verbatim>\<open>abc\<close>,
  \<^verbatim>\<open>ab\<close>, \<^verbatim>\<open>a\<close>. Erasing \<^verbatim>\<open>abc\<close> copies the last binding over the first: the
  table is then \<^verbatim>\<open>a\<close>, \<^verbatim>\<open>ab\<close>, which is not in descending length.
\<close>

theorem erase_breaks_descending_length:
  "descending_length (mapping_list three_bindings) \<and>
   map seq (mapping_list three_bindings) = [L ''abc'', L ''ab'', L ''a''] \<and>
   fst (input_mapping_erase (L ''abc'') None three_bindings) \<and>
   map seq (mapping_list (snd (input_mapping_erase (L ''abc'') None three_bindings))) = [L ''a'', L ''ab''] \<and>
   \<not> descending_length (mapping_list (snd (input_mapping_erase (L ''abc'') None three_bindings)))"
  by (simp add: three_bindings_def input_mapping_add_def input_mapping_erase_def initial_state_def
      new_input_mapping_def input_mapping_insert_sorted_def lower_bound.simps
      length_is_greater_than_def L_def descending_length_def)

subsection \<open>The function registry\<close>

lemma length_name_arr: "length name_arr = 48"
  by (simp add: name_arr_def)

lemma length_code_arr: "length (code_arr P) = 48"
  by (simp add: code_arr_def)

lemma code_arr_nth: "i < 48 \<Longrightarrow> code_arr P ! i = function_code P i"
  by (simp add: code_arr_def)

lemma get_code_cases:
  "input_function_get_code P nm = - 1 \<and> nm \<notin> set name_arr \<or>
   (\<exists>i < 48. nm = name_arr ! i \<and> input_function_get_code P nm = function_code P i)"
proof (cases "find (\<lambda>i. nm = name_arr ! i) [0..<length (code_arr P)]")
  case None
  then have "nm \<notin> set name_arr"
    by (auto simp: find_None_iff in_set_conv_nth length_code_arr length_name_arr)
  with None show ?thesis by (simp add: input_function_get_code_def)
next
  case (Some i)
  then have "i < 48 \<and> nm = name_arr ! i"
    by (auto simp: find_Some_iff length_code_arr)
  with Some show ?thesis by (auto simp: input_function_get_code_def code_arr_nth)
qed


lemma unat_of_small: "i < 48 \<Longrightarrow> unat (of_nat i :: 32 word) = i"
  by (simp add: unat_of_nat)

lemma unat_code:
  assumes "unat (b :: 32 word) + 48 \<le> 2 ^ 32" "i < 48"
  shows "unat (b + of_nat i) = unat b + i"
proof -
  have "unat (b + of_nat i) = (unat b + unat (of_nat i :: 32 word)) mod 2 ^ 32"
    by (simp add: unat_word_ariths(1))
  also have "\<dots> = (unat b + i) mod 2 ^ 32"
    using assms(2) by (simp only: unat_of_small)
  also have "\<dots> = unat b + i"
    using assms by simp
  finally show ?thesis .
qed

lemma describe_function_code:
  assumes "unat (R_BEGINNING_OF_LINE P) + length name_arr \<le> 2 ^ 32" "i < 48"
  shows "describe_char P (function_code P i) =
         format_02x (function_code P i) @ L '' ('' @ name_arr ! i @ L '')''"
proof -
  let ?b = "R_BEGINNING_OF_LINE P"
  have b: "unat ?b + 48 \<le> 2 ^ 32"
    using assms(1) by (simp only: length_name_arr)
  have u: "unat (?b + of_nat i) = unat ?b + i"
    by (rule unat_code[OF b assms(2)])
  have le: "?b \<le> ?b + of_nat i"
    unfolding word_le_nat_alt u by simp
  have lt: "unat (?b + of_nat i) < unat ?b + length name_arr"
    unfolding u length_name_arr using assms(2) by simp
  have idx: "unat (?b + of_nat i - ?b) = i"
    using unat_of_small[OF assms(2)] by simp
  show ?thesis
    unfolding describe_char_def function_code_def using le lt idx by (simp only: simp_thms if_True)
qed

text \<open>
  C9. Where the enumerators do not wrap around: if \<^verbatim>\<open>input_function_get_code\<close> answers
  a code other than \<^verbatim>\<open>-1\<close> for a name, \<^verbatim>\<open>describe_char\<close> of that code contains the
  name; and every name of \<^verbatim>\<open>input_function_get_names\<close> is contained in
  \<^verbatim>\<open>describe_char\<close> of its code.
\<close>

theorem function_code_round_trip:
  assumes "unat (R_BEGINNING_OF_LINE P) + length name_arr \<le> 2 ^ 32"
  shows "(input_function_get_code P nm = c \<and> c \<noteq> - 1 \<longrightarrow> sublist nm (describe_char P c)) \<and>
         (\<forall>n \<in> set input_function_get_names.
            sublist n (describe_char P (input_function_get_code P n)))"
proof -
  have found: "sublist n (describe_char P (input_function_get_code P n))"
    if "i < 48" "n = name_arr ! i" "input_function_get_code P n = function_code P i" for n i
  proof -
    have "describe_char P (input_function_get_code P n) =
        (format_02x (function_code P i) @ L '' ('') @ n @ L '')''"
      using describe_function_code[OF assms that(1)] that(2,3) by simp
    then show ?thesis
      unfolding sublist_def by blast
  qed
  have 1: "sublist nm (describe_char P c)" if "input_function_get_code P nm = c" "c \<noteq> - 1"
    using get_code_cases[of P nm] that found by auto
  have 2: "sublist n (describe_char P (input_function_get_code P n))"
    if "n \<in> set input_function_get_names" for n
    using get_code_cases[of P n] that found by (auto simp: input_function_get_names_def)
  from 1 2 show ?thesis by blast
qed

theorem function_code_round_trip_witness:
  "unat (R_BEGINNING_OF_LINE sample_platform) + length name_arr \<le> 2 ^ 32 \<and>
   input_function_get_code sample_platform (L ''yank'') = 0xE00D \<and>
   (0xE00D :: wchar) \<noteq> - 1 \<and>
   L ''yank'' \<in> set input_function_get_names \<and>
   describe_char sample_platform 0xE00D = L ''e00d (yank)'' \<and>
   sublist (L ''yank'') (describe_char sample_platform 0xE00D) \<and>
   sublist (L ''yank'') (describe_char sample_platform (input_function_get_code sample_platform (L ''yank'')))"
proof -
  have h: "unat (R_BEGINNING_OF_LINE sample_platform) + length name_arr \<le> 2 ^ 32"
    by (simp add: sample_platform_def length_name_arr)
  have c: "input_function_get_code sample_platform (L ''yank'') = 0xE00D"
    by (simp add: input_function_get_code_def name_arr_def code_arr_def function_code_def
        sample_platform_def L_def upt_conv_Cons)
  have n: "(0xE00D :: wchar) \<noteq> - 1"
    by simp
  have m: "L ''yank'' \<in> set input_function_get_names"
    by (simp add: input_function_get_names_def name_arr_def)
  have d: "describe_char sample_platform 0xE00D = L ''e00d (yank)''"
    by (simp add: describe_char_def sample_platform_def name_arr_def format_02x_def hex.simps
        hex_digit_def L_def word_le_nat_alt)
  have "sublist (L ''yank'') (describe_char sample_platform 0xE00D)"
    using function_code_round_trip[OF h, of "L ''yank''" "0xE00D"] c n by blast
  moreover have "sublist (L ''yank'')
      (describe_char sample_platform (input_function_get_code sample_platform (L ''yank'')))"
    using function_code_round_trip[OF h, of "L ''yank''" "0xE00D"] m by blast
  ultimately show ?thesis using h c n m d by blast
qed

subsection \<open>The matcher\<close>

lemma readch_readable:
  "input_common_readch t r = (c, r') \<Longrightarrow> readable r = c ## readable r' \<and> read_log r' = read_log r @ [t]"
  by (cases "lookahead r") (auto simp: input_common_readch_def readable_def)

lemma unreadch_readable [simp]:
  "readable (input_unreadch c r) = c ## readable r"
  "read_log (input_unreadch c r) = read_log r"
  "lookahead (input_unreadch c r) = c # lookahead r"
  "terminal (input_unreadch c r) = terminal r"
  by (simp_all add: input_unreadch_def input_common_unreadch_def readable_def)

lemma match_chars_spec:
  "match_chars P str j c r = (j', c', r') \<Longrightarrow> j \<le> length str \<Longrightarrow>
   j \<le> j' \<and> j' \<le> length str \<and>
   read_log r' = read_log r @
     map (\<lambda>k. 0 < k \<and> iswcntrl P (str ! 0)) [j..<(if j' < length str then Suc j' else j')] \<and>
   readable r = take (j' - j) (drop j str) @- (if j' < length str then c' ## readable r' else readable r') \<and>
   (j' < length str \<longrightarrow> str ! j' \<noteq> c')"
proof (induction P str j c r rule: match_chars.induct)
  case (1 P str j c r)
  show ?case
  proof (cases "j < length str")
    case False
    with "1.prems" show ?thesis
      by (simp add: match_chars.simps[of P str j c r])
  next
    case True
    obtain c1 r1 where rd1: "input_common_readch (j > 0 \<and> iswcntrl P (str ! 0)) r = (c1, r1)"
      by (cases "input_common_readch (j > 0 \<and> iswcntrl P (str ! 0)) r") auto
    note rr = readch_readable[OF rd1]
    show ?thesis
    proof (cases "str ! j \<noteq> c1")
      case neq: True
      then have "(j', c', r') = (j, c1, r1)"
        using "1.prems"(1) True rd1 by (simp add: match_chars.simps[of P str j c r])
      then show ?thesis using True neq rr by simp
    next
      case eq: False
      then have rec: "match_chars P str (j + 1) c1 r1 = (j', c', r')"
        using "1.prems"(1) True rd1 by (simp add: match_chars.simps[of P str j c r])
      have ih: "j + 1 \<le> j' \<and> j' \<le> length str \<and>
         read_log r' = read_log r1 @
           map (\<lambda>k. 0 < k \<and> iswcntrl P (str ! 0)) [j + 1..<(if j' < length str then Suc j' else j')] \<and>
         readable r1 = take (j' - (j + 1)) (drop (j + 1) str) @-
           (if j' < length str then c' ## readable r' else readable r') \<and>
         (j' < length str \<longrightarrow> str ! j' \<noteq> c')"
        using "1.IH"[OF True rd1[symmetric] _ rec] eq True by simp
      have d: "drop j str = c1 # drop (j + 1) str"
        using True eq Cons_nth_drop_Suc[of j str] by simp
      have t: "take (j' - j) (drop j str) = c1 # take (j' - (j + 1)) (drop (j + 1) str)"
      proof -
        have "j + 1 \<le> j'" using ih by blast
        then have "j' - j = Suc (j' - (j + 1))" by arith
        then show ?thesis unfolding d by simp
      qed
      have u: "[j..<(if j' < length str then Suc j' else j')] =
          j # [j + 1..<(if j' < length str then Suc j' else j')]"
      proof -
        have "j + 1 \<le> j'" using ih by blast
        then show ?thesis by (simp add: upt_conv_Cons)
      qed
      have le: "j \<le> j'" using ih by simp
      show ?thesis
        unfolding t u using ih rr le by simp
    qed
  qed
qed

lemma unread_fold:
  "j \<le> length xs \<Longrightarrow>
   lookahead (foldl (\<lambda>r k. input_unreadch (xs ! k) r) r0 (rev [0..<j])) = take j xs @ lookahead r0 \<and>
   terminal (foldl (\<lambda>r k. input_unreadch (xs ! k) r) r0 (rev [0..<j])) = terminal r0 \<and>
   read_log (foldl (\<lambda>r k. input_unreadch (xs ! k) r) r0 (rev [0..<j])) = read_log r0"
proof (induction j arbitrary: r0)
  case 0
  then show ?case by simp
next
  case (Suc j)
  then have "j < length xs" by simp
  then have "take (Suc j) xs = take j xs @ [xs ! j]"
    by (rule take_Suc_conv_app_nth)
  then show ?case
    using Suc.IH[of "input_unreadch (xs ! j) r0"] Suc.prems by simp
qed

lemma c_str_take: "j \<le> length (c_str s) \<Longrightarrow> take j s = take j (c_str s)"
proof -
  assume j: "j \<le> length (c_str s)"
  have "s = c_str s @ dropWhile (\<lambda>c. c \<noteq> 0) s"
    by (simp add: c_str_def)
  then have "take j s = take j (c_str s @ dropWhile (\<lambda>c. c \<noteq> 0) s)"
    by simp
  then show ?thesis using j by simp
qed

lemma is_match_spec:
  assumes "input_mapping_is_match P m r = (b, r')"
  shows "\<exists>k. read_log r' = read_log r @
             map (\<lambda>j. 0 < j \<and> iswcntrl P (c_str (seq m) ! 0)) [0..<k] \<and>
           (if b then k = length (c_str (seq m)) \<and> readable r = c_str (seq m) @- readable r'
            else 0 < k \<and> k \<le> length (c_str (seq m)) \<and> readable r' = readable r \<and>
              stake (length (c_str (seq m))) (readable r) \<noteq> c_str (seq m))"
proof -
  let ?str = "c_str (seq m)"
  obtain j c r1 where mc: "match_chars P ?str 0 0 r = (j, c, r1)"
    by (cases "match_chars P ?str 0 0 r") auto
  from match_chars_spec[OF mc] have
    jl: "j \<le> length ?str" and
    lg: "read_log r1 = read_log r @
      map (\<lambda>k. 0 < k \<and> iswcntrl P (?str ! 0)) [0..<(if j < length ?str then Suc j else j)]" and
    rb: "readable r = take j ?str @- (if j < length ?str then c ## readable r1 else readable r1)" and
    ne: "j < length ?str \<longrightarrow> ?str ! j \<noteq> c"
    by simp_all
  show ?thesis
  proof (cases "j = length ?str")
    case True
    then have "b" "r' = r1"
      using assms mc by (simp_all add: input_mapping_is_match_def)
    then show ?thesis
      using True lg rb by (intro exI[of _ j]) simp
  next
    case False
    then have lt: "j < length ?str" using jl by simp
    let ?r' = "foldl (\<lambda>r k. input_unreadch (seq m ! k) r) (input_unreadch c r1) (rev [0..<j])"
    have br: "\<not> b" "r' = ?r'"
      using assms mc False by (simp_all add: input_mapping_is_match_def)
    have "length ?str \<le> length (seq m)"
      by (simp add: c_str_def length_takeWhile_le)
    then have jm: "j \<le> length (seq m)" using jl by simp
    note uf = unread_fold[OF jm, of "input_unreadch c r1"]
    have tk: "take j (seq m) = take j ?str"
      by (rule c_str_take[OF jl])
    have "readable ?r' = take j ?str @- (c ## readable r1)"
      using uf tk by (simp add: readable_def)
    then have same: "readable r' = readable r"
      using rb lt br by simp
    have "stake (length ?str) (readable r) ! j = c"
      using lt rb by (simp add: stake_nth)
    then have "stake (length ?str) (readable r) ! j \<noteq> ?str ! j"
      using ne lt by simp
    then have diff: "stake (length ?str) (readable r) \<noteq> ?str"
      by metis
    show ?thesis
      using br lg lt same diff uf by (intro exI[of _ "Suc j"]) simp
  qed
qed

lemma c_str_first: "c_str s \<noteq> [] \<Longrightarrow> c_str s ! 0 = s ! 0"
  by (cases s) (auto simp: c_str_def)

lemma is_match_iff:
  "fst (input_mapping_is_match P m r) \<longleftrightarrow>
   stake (length (c_str (seq m))) (readable r) = c_str (seq m)"
proof (cases "input_mapping_is_match P m r")
  case (Pair b r')
  from is_match_spec[OF Pair] show ?thesis
    unfolding Pair by (cases b) (auto simp: stake_shift)
qed

lemma readch_stack:
  "input_common_readch t r = (c, r') \<Longrightarrow>
   lookahead r' = drop 1 (lookahead r) \<and>
   terminal r' = sdrop (1 - length (lookahead r)) (terminal r)"
  by (cases "lookahead r") (auto simp: input_common_readch_def)

lemma sdrop_after_reads:
  "sdrop (1 - length (drop n la)) (sdrop (n - length la) t) = sdrop (Suc n - length la) t"
proof (cases "n < length la")
  case True
  then show ?thesis by simp
next
  case False
  then have "Suc n - length la = Suc (n - length la)" by simp
  then show ?thesis using False by simp
qed

lemma match_chars_stack:
  "match_chars P str j c r = (j', c', r') \<Longrightarrow> j \<le> length str \<Longrightarrow>
   lookahead r' = drop ((if j' < length str then Suc j' else j') - j) (lookahead r) \<and>
   terminal r' =
     sdrop ((if j' < length str then Suc j' else j') - j - length (lookahead r)) (terminal r)"
proof (induction P str j c r rule: match_chars.induct)
  case (1 P str j c r)
  show ?case
  proof (cases "j < length str")
    case False
    with "1.prems" show ?thesis
      by (simp add: match_chars.simps[of P str j c r])
  next
    case True
    obtain c1 r1 where rd1: "input_common_readch (j > 0 \<and> iswcntrl P (str ! 0)) r = (c1, r1)"
      by (cases "input_common_readch (j > 0 \<and> iswcntrl P (str ! 0)) r") auto
    note rs = readch_stack[OF rd1]
    show ?thesis
    proof (cases "str ! j \<noteq> c1")
      case neq: True
      then have "(j', c', r') = (j, c1, r1)"
        using "1.prems"(1) True rd1 by (simp add: match_chars.simps[of P str j c r])
      then show ?thesis using True rs by simp
    next
      case eq: False
      then have rec: "match_chars P str (j + 1) c1 r1 = (j', c', r')"
        using "1.prems"(1) True rd1 by (simp add: match_chars.simps[of P str j c r])
      let ?e = "if j' < length str then Suc j' else j'"
      have jj: "j + 1 \<le> j'"
        using match_chars_spec[OF rec] True by simp
      then have n: "?e - j = Suc (?e - (j + 1))" by auto
      have ih: "lookahead r' = drop (?e - (j + 1)) (lookahead r1) \<and>
          terminal r' = sdrop (?e - (j + 1) - length (lookahead r1)) (terminal r1)"
        using "1.IH"[OF True rd1[symmetric] _ rec] eq True by simp
      have la: "lookahead r' = drop (?e - j) (lookahead r)"
        using ih rs unfolding n by simp
      have "terminal r' = sdrop (?e - (j + 1) - length (drop 1 (lookahead r)))
          (sdrop (1 - length (lookahead r)) (terminal r))"
        using ih rs by simp
      also have "\<dots> = sdrop (?e - j - length (lookahead r)) (terminal r)"
        unfolding n by (cases "lookahead r") simp_all
      finally show ?thesis using la by simp
    qed
  qed
qed

lemma is_match_stack:
  assumes "input_mapping_is_match P m r = (False, r')"
  shows "\<exists>k c. 0 < k \<and> k \<le> length (c_str (seq m)) \<and>
           c \<noteq> c_str (seq m) ! (k - 1) \<and>
           lookahead r' = take (k - 1) (seq m) @ c # drop k (lookahead r) \<and>
           terminal r' = sdrop (k - length (lookahead r)) (terminal r) \<and>
           length (read_log r') = length (read_log r) + k"
proof -
  let ?str = "c_str (seq m)"
  obtain j c r1 where mc: "match_chars P ?str 0 0 r = (j, c, r1)"
    by (cases "match_chars P ?str 0 0 r") auto
  have lt: "j < length ?str"
    using assms mc match_chars_spec[OF mc] by (auto simp: input_mapping_is_match_def split: if_splits)
  let ?r' = "foldl (\<lambda>r k. input_unreadch (seq m ! k) r) (input_unreadch c r1) (rev [0..<j])"
  have r': "r' = ?r'"
    using assms mc lt by (simp add: input_mapping_is_match_def)
  have "length ?str \<le> length (seq m)"
    by (simp add: c_str_def length_takeWhile_le)
  then have jm: "j \<le> length (seq m)" using lt by simp
  note uf = unread_fold[OF jm, of "input_unreadch c r1"]
  note st = match_chars_stack[OF mc]
  note sp = match_chars_spec[OF mc]
  have "lookahead r' = take j (seq m) @ c # drop (Suc j) (lookahead r)"
    using uf st lt unfolding r' by simp
  moreover have "terminal r' = sdrop (Suc j - length (lookahead r)) (terminal r)"
    using uf st lt unfolding r' by simp
  moreover have "length (read_log r') = length (read_log r) + Suc j"
    using uf sp lt unfolding r' by simp
  moreover have "c \<noteq> ?str ! j"
    using sp lt by auto
  ultimately show ?thesis
    using lt by (intro exI[of _ "Suc j"] exI[of _ c]) simp
qed

text \<open>
  C2. If \<^verbatim>\<open>input_mapping_is_match\<close> answers false for a binding, what the coming reads
  will deliver is what they would have delivered before the call. It has read \<open>k\<close>
  characters, at least one and at most as many as the sequence has, and has pushed back
  the last of them and then the \<open>k - 1\<close> matched characters of the sequence, the first
  of them on top.
\<close>

theorem matcher_restores_stream:
  "\<not> fst (input_mapping_is_match P m r) \<Longrightarrow>
   readable (snd (input_mapping_is_match P m r)) = readable r \<and>
   (\<exists>k c. 0 < k \<and> k \<le> length (c_str (seq m)) \<and>
      lookahead (snd (input_mapping_is_match P m r)) =
        take (k - 1) (seq m) @ c # drop k (lookahead r) \<and>
      terminal (snd (input_mapping_is_match P m r)) =
        sdrop (k - length (lookahead r)) (terminal r) \<and>
      length (read_log (snd (input_mapping_is_match P m r))) = length (read_log r) + k)"
proof -
  assume f: "\<not> fst (input_mapping_is_match P m r)"
  obtain b r' where p: "input_mapping_is_match P m r = (b, r')"
    by (cases "input_mapping_is_match P m r") auto
  then have p': "input_mapping_is_match P m r = (False, r')"
    using f by simp
  have "readable r' = readable r"
    using is_match_spec[OF p'] by auto
  then show ?thesis
    using is_match_stack[OF p'] unfolding p' by auto
qed

lemma up_arrow_on_down:
  "input_mapping_is_match sample_platform up_arrow down_typed =
     (False, \<lparr>lookahead = [0x1B, 0x5B, 0x42], terminal = sconst 0x0A, read_log = [False, True, True]\<rparr>)"
  by (simp add: input_mapping_is_match_def up_arrow_def down_typed_def c_str_def match_chars.simps
      input_common_readch_def input_unreadch_def input_common_unreadch_def sample_platform_def)

theorem matcher_restores_stream_witness:
  "\<not> fst (input_mapping_is_match sample_platform up_arrow down_typed) \<and>
   readable (snd (input_mapping_is_match sample_platform up_arrow down_typed)) = readable down_typed \<and>
   readable down_typed = [0x1B, 0x5B, 0x42] @- sconst 0x0A \<and>
   lookahead (snd (input_mapping_is_match sample_platform up_arrow down_typed)) = [0x1B, 0x5B, 0x42]"
  using matcher_restores_stream[of sample_platform up_arrow down_typed]
  by (simp add: up_arrow_on_down) (simp add: down_typed_def readable_def)

text \<open>
  C7. The reads of \<^verbatim>\<open>input_mapping_is_match\<close> are numbered from 0; read \<open>j\<close> is timed
  exactly when \<open>j\<close> is positive and the first character of the sequence is a control
  character.
\<close>

theorem matcher_timed_reads:
  "\<exists>k \<le> length (c_str (seq m)).
     read_log (snd (input_mapping_is_match P m r)) =
     read_log r @ map (\<lambda>j. 0 < j \<and> iswcntrl P (seq m ! 0)) [0..<k]"
proof -
  obtain b r' where p: "input_mapping_is_match P m r = (b, r')"
    by (cases "input_mapping_is_match P m r") auto
  from is_match_spec[OF p] obtain k where
    k: "read_log r' = read_log r @ map (\<lambda>j. 0 < j \<and> iswcntrl P (c_str (seq m) ! 0)) [0..<k]"
       "k \<le> length (c_str (seq m))"
    by (cases b) auto
  have "map (\<lambda>j. 0 < j \<and> iswcntrl P (c_str (seq m) ! 0)) [0..<k] =
        map (\<lambda>j. 0 < j \<and> iswcntrl P (seq m ! 0)) [0..<k]"
  proof (cases "c_str (seq m) = []")
    case True
    with k(2) show ?thesis by simp
  next
    case False
    then show ?thesis by (simp add: c_str_first)
  qed
  with k show ?thesis unfolding p by auto
qed

theorem matcher_timed_reads_witness:
  "iswcntrl sample_platform (seq up_arrow ! 0) \<and>
   read_log (snd (input_mapping_is_match sample_platform up_arrow down_typed)) =
     read_log down_typed @ [False, True, True]"
proof -
  have c: "iswcntrl sample_platform (seq up_arrow ! 0)"
    by (simp add: sample_platform_def up_arrow_def)
  obtain k where k: "k \<le> length (c_str (seq up_arrow))"
      "read_log (snd (input_mapping_is_match sample_platform up_arrow down_typed)) =
       read_log down_typed @ map (\<lambda>j. 0 < j \<and> iswcntrl sample_platform (seq up_arrow ! 0)) [0..<k]"
    using matcher_timed_reads[of up_arrow sample_platform down_typed] by blast
  have "length (read_log (snd (input_mapping_is_match sample_platform up_arrow down_typed))) = 3"
    by (simp add: up_arrow_on_down)
  with k(2) have "k = 3" by (simp add: down_typed_def)
  with k(2) c show ?thesis by (simp add: upt_conv_Cons)
qed

subsection \<open>The dispatcher\<close>

lemma push_args_loop_ok:
  "0 \<le> input_function_args_index s \<Longrightarrow>
   input_function_args_index s + int n \<le> int MAX_INPUT_FUNCTION_ARGS \<Longrightarrow>
   \<exists>r args. push_args_loop n s =
      Inr (s\<lparr>rd := r, input_function_args := args,
             input_function_args_index := input_function_args_index s + int n\<rparr>)"
proof (induction n arbitrary: s)
  case 0
  have "s = s\<lparr>rd := rd s, input_function_args := input_function_args s,
      input_function_args_index := input_function_args_index s + int 0\<rparr>"
    by simp
  then show ?case
    by (metis push_args_loop.simps(1))
next
  case (Suc n)
  obtain c r where rc: "input_common_readch False (rd s) = (c, r)"
    by (cases "input_common_readch False (rd s)") auto
  let ?s1 = "s\<lparr>rd := r,
      input_function_args := (input_function_args s)[nat (input_function_args_index s) := c],
      input_function_args_index := input_function_args_index s + 1\<rparr>"
  have pa: "input_function_push_arg c (s\<lparr>rd := r\<rparr>) = Inr ?s1"
    using Suc.prems by (simp add: input_function_push_arg_def)
  obtain r' args where s': "push_args_loop n ?s1 =
      Inr (?s1\<lparr>rd := r', input_function_args := args,
             input_function_args_index := input_function_args_index ?s1 + int n\<rparr>)"
    using Suc.IH[of ?s1] Suc.prems by auto
  have "push_args_loop (Suc n) s =
      Inr (s\<lparr>rd := r', input_function_args := args,
             input_function_args_index := input_function_args_index s + int (Suc n)\<rparr>)"
    using rc pa s' by (simp add: add.commute add.left_commute)
  then show ?case by blast
qed

lemma capture_args_ok:
  "0 \<le> input_function_args_index s \<Longrightarrow>
   input_function_args_index s + int (captured P cmds) \<le> int MAX_INPUT_FUNCTION_ARGS \<Longrightarrow>
   \<exists>r args. capture_args P cmds s =
      Inr (s\<lparr>rd := r, input_function_args := args,
             input_function_args_index := input_function_args_index s + int (captured P cmds)\<rparr>)"
proof (induction cmds arbitrary: s)
  case Nil
  have "s = s\<lparr>rd := rd s, input_function_args := input_function_args s,
      input_function_args_index := input_function_args_index s + int (captured P [])\<rparr>"
    by (simp add: captured_def)
  then show ?case
    by (metis capture_args.simps(1))
next
  case (Cons command rest)
  show ?case
  proof (cases "input_function_get_code P command \<noteq> - 1")
    case False
    then have "captured P (command # rest) = captured P rest"
      by (simp add: captured_def)
    then show ?thesis
      using Cons.IH[of s] Cons.prems False by simp
  next
    case True
    let ?n = "input_function_arity P (input_function_get_code P command)"
    have cap: "captured P (command # rest) = ?n + captured P rest"
      using True by (simp add: captured_def)
    obtain r1 a1 where s1: "push_args_loop ?n s =
        Inr (s\<lparr>rd := r1, input_function_args := a1,
               input_function_args_index := input_function_args_index s + int ?n\<rparr>)"
      using push_args_loop_ok[of s ?n] Cons.prems cap by auto
    let ?s1 = "s\<lparr>rd := r1, input_function_args := a1,
               input_function_args_index := input_function_args_index s + int ?n\<rparr>"
    obtain r' args where s': "capture_args P rest ?s1 =
        Inr (?s1\<lparr>rd := r', input_function_args := args,
               input_function_args_index := input_function_args_index ?s1 + int (captured P rest)\<rparr>)"
      using Cons.IH[of ?s1] Cons.prems cap by auto
    have "capture_args P (command # rest) s =
        Inr (s\<lparr>rd := r', input_function_args := args,
               input_function_args_index :=
                 input_function_args_index s + int (captured P (command # rest))\<rparr>)"
      using True s1 s' cap by (simp add: input_function_push_args_def add.assoc)
    then show ?thesis by blast
  qed
qed

lemma captured_rev: "captured P (rev cmds) = captured P cmds"
  by (simp add: captured_def rev_map[symmetric])

lemma unread_all:
  "foldl (\<lambda>r ch. input_unreadch ch r) r (rev xs) = r\<lparr>lookahead := xs @ lookahead r\<rparr>"
  by (induction xs) (simp_all add: input_unreadch_def input_common_unreadch_def)

lemma push_all:
  "foldl (\<lambda>r ch. r\<lparr>lookahead := ch # lookahead r\<rparr>) r (rev xs) = r\<lparr>lookahead := xs @ lookahead r\<rparr>"
  by (induction xs) simp_all

lemma run_commands_abort:
  "\<exists>cmd \<in> set cmds. input_function_get_code P cmd = - 1 \<Longrightarrow>
   run_commands P m False cmds s =
   s\<lparr>rd := (rd s)\<lparr>lookahead := R_NULL P # seq m @
          rev (map (input_function_get_code P) (takeWhile (is_function P) cmds)) @
          lookahead (rd s)\<rparr>\<rparr>"
proof (induction cmds arbitrary: s)
  case Nil
  then show ?case by simp
next
  case (Cons command rest)
  show ?case
  proof (cases "input_function_get_code P command \<noteq> - 1")
    case True
    then have "\<exists>cmd \<in> set rest. input_function_get_code P cmd = - 1"
      using Cons.prems by auto
    from Cons.IH[OF this] True show ?thesis
      by (simp add: is_function_def input_unreadch_def input_common_unreadch_def)
  next
    case False
    then show ?thesis
      by (simp add: is_function_def unread_all)
  qed
qed

lemma execute_abort:
  assumes shell: "\<exists>cmd \<in> set (commands m). input_function_get_code P cmd = - 1"
    and low: "0 \<le> input_function_args_index s"
    and room: "input_function_args_index s + int (captured P (commands m)) \<le> int MAX_INPUT_FUNCTION_ARGS"
  shows "\<exists>r args.
     capture_args P (rev (commands m))
       (s\<lparr>input_function_status := True, dispatched := dispatched s @ [m]\<rparr>) =
     Inr (s\<lparr>input_function_status := True, dispatched := dispatched s @ [m], rd := r,
            input_function_args := args,
            input_function_args_index := input_function_args_index s + int (captured P (commands m))\<rparr>) \<and>
     input_mapping_execute P m False s =
     Inr (s\<lparr>input_function_status := True, dispatched := dispatched s @ [m],
            rd := r\<lparr>lookahead := R_NULL P # seq m @
              rev (map (input_function_get_code P) (takeWhile (is_function P) (rev (commands m)))) @
              lookahead r\<rparr>,
            input_function_args := args,
            input_function_args_index := input_function_args_index s + int (captured P (commands m))\<rparr>)"
proof -
  let ?s0 = "s\<lparr>input_function_status := True, dispatched := dispatched s @ [m]\<rparr>"
  obtain r args where c: "capture_args P (rev (commands m)) ?s0 =
      Inr (?s0\<lparr>rd := r, input_function_args := args,
             input_function_args_index := input_function_args_index ?s0 + int (captured P (rev (commands m)))\<rparr>)"
    using capture_args_ok[of ?s0 P "rev (commands m)"] low room by (auto simp: captured_rev)
  have sh: "\<exists>cmd \<in> set (rev (commands m)). input_function_get_code P cmd = - 1"
    using shell by simp
  show ?thesis
    using c by (intro exI[of _ r] exI[of _ args])
      (simp add: input_mapping_execute_def run_commands_abort[OF sh] captured_rev)
qed

text \<open>
  C3. Let a binding have a command that is no editor function, and let the argument
  capture stay within \<^verbatim>\<open>input_function_args\<close>. Then \<^verbatim>\<open>input_mapping_execute\<close> with
  \<^verbatim>\<open>allow_commands\<close> false returns with \<^verbatim>\<open>R_NULL\<close> on top of the push-back stack and the
  sequence of the binding below it, so that the next read yields \<^verbatim>\<open>R_NULL\<close> and the
  reads after it the sequence; no command has been handed to the parser and the bind mode
  is the one before the call.
\<close>

theorem execute_defers_commands:
  assumes "\<exists>cmd \<in> set (commands m). input_function_get_code P cmd = - 1"
    and "0 \<le> input_function_args_index s"
    and "input_function_args_index s + int (captured P (commands m)) \<le> int MAX_INPUT_FUNCTION_ARGS"
  shows "\<exists>s' rest. input_mapping_execute P m False s = Inr s' \<and>
           lookahead (rd s') = R_NULL P # seq m @ rest \<and>
           fst (input_common_readch False (rd s')) = R_NULL P \<and>
           stake (Suc (length (seq m))) (readable (rd s')) = R_NULL P # seq m \<and>
           evaluated s' = evaluated s \<and>
           fish_bind_mode s' = fish_bind_mode s"
proof -
  from execute_abort[OF assms] obtain r args where
    e: "input_mapping_execute P m False s =
     Inr (s\<lparr>input_function_status := True, dispatched := dispatched s @ [m],
            rd := r\<lparr>lookahead := R_NULL P # seq m @
              rev (map (input_function_get_code P) (takeWhile (is_function P) (rev (commands m)))) @
              lookahead r\<rparr>,
            input_function_args := args,
            input_function_args_index := input_function_args_index s + int (captured P (commands m))\<rparr>)"
    by blast
  show ?thesis
    unfolding e
    by (intro exI[of _ "s\<lparr>input_function_status := True, dispatched := dispatched s @ [m],
            rd := r\<lparr>lookahead := R_NULL P # seq m @
              rev (map (input_function_get_code P) (takeWhile (is_function P) (rev (commands m)))) @
              lookahead r\<rparr>,
            input_function_args := args,
            input_function_args_index := input_function_args_index s + int (captured P (commands m))\<rparr>"]
          exI[of _ "rev (map (input_function_get_code P) (takeWhile (is_function P) (rev (commands m)))) @
              lookahead r"])
       (simp add: input_common_readch_def readable_def stake_shift)
qed

text \<open>
  C10. Under the same conditions the state \<^verbatim>\<open>input_mapping_execute\<close> returns is the
  state its first loop left but for the push-back stack: the argument array and its index
  are those of the first loop, the index being the one before the call plus the number of
  captured characters.
\<close>

theorem abort_keeps_captured_args:
  assumes "\<exists>cmd \<in> set (commands m). input_function_get_code P cmd = - 1"
    and "0 \<le> input_function_args_index s"
    and "input_function_args_index s + int (captured P (commands m)) \<le> int MAX_INPUT_FUNCTION_ARGS"
  shows "\<exists>s1 s' la.
           capture_args P (rev (commands m))
             (s\<lparr>input_function_status := True, dispatched := dispatched s @ [m]\<rparr>) = Inr s1 \<and>
           input_mapping_execute P m False s = Inr s' \<and>
           s' = s1\<lparr>rd := (rd s1)\<lparr>lookahead := la\<rparr>\<rparr> \<and>
           input_function_args s' = input_function_args s1 \<and>
           input_function_args_index s' = input_function_args_index s1 \<and>
           input_function_args_index s1 =
             input_function_args_index s + int (captured P (commands m))"
proof -
  from execute_abort[OF assms] obtain r args where
    c: "capture_args P (rev (commands m))
       (s\<lparr>input_function_status := True, dispatched := dispatched s @ [m]\<rparr>) =
     Inr (s\<lparr>input_function_status := True, dispatched := dispatched s @ [m], rd := r,
            input_function_args := args,
            input_function_args_index := input_function_args_index s + int (captured P (commands m))\<rparr>)"
    and e: "input_mapping_execute P m False s =
     Inr (s\<lparr>input_function_status := True, dispatched := dispatched s @ [m],
            rd := r\<lparr>lookahead := R_NULL P # seq m @
              rev (map (input_function_get_code P) (takeWhile (is_function P) (rev (commands m)))) @
              lookahead r\<rparr>,
            input_function_args := args,
            input_function_args_index := input_function_args_index s + int (captured P (commands m))\<rparr>)"
    by blast
  show ?thesis
    unfolding c e
    by (intro exI[of _ "s\<lparr>input_function_status := True, dispatched := dispatched s @ [m], rd := r,
            input_function_args := args,
            input_function_args_index := input_function_args_index s + int (captured P (commands m))\<rparr>"]
          exI[of _ "s\<lparr>input_function_status := True, dispatched := dispatched s @ [m],
            rd := r\<lparr>lookahead := R_NULL P # seq m @
              rev (map (input_function_get_code P) (takeWhile (is_function P) (rev (commands m)))) @
              lookahead r\<rparr>,
            input_function_args := args,
            input_function_args_index := input_function_args_index s + int (captured P (commands m))\<rparr>"]
          exI[of _ "R_NULL P # seq m @
              rev (map (input_function_get_code P) (takeWhile (is_function P) (rev (commands m)))) @
              lookahead r"])
       simp
qed

lemma code_of_forward_jump:
  "input_function_get_code sample_platform (L ''forward-jump'') = 0xE02E"
  by (simp add: input_function_get_code_def name_arr_def code_arr_def function_code_def
      sample_platform_def L_def upt_conv_Cons)

lemma code_of_echo:
  "input_function_get_code sample_platform (L ''echo hi'') = - 1"
  by (simp add: input_function_get_code_def name_arr_def code_arr_def function_code_def
      sample_platform_def L_def upt_conv_Cons)

lemma arity_of_forward_jump: "input_function_arity sample_platform 0xE02E = 1"
  by (simp add: input_function_arity_def R_FORWARD_JUMP_def R_BACKWARD_JUMP_def function_code_def
      sample_platform_def)

lemma first_arg: "(replicate 20 a)[0 := x] = x # replicate 19 a"
  by (simp add: numeral_eq_Suc)

lemma sample_codes:
  "R_NULL sample_platform = 0xE000" "R_EOF sample_platform = 0xE001"
  "(0xE02E :: wchar) \<noteq> - 1"
  by (simp_all add: sample_platform_def)

lemma captured_echo_then_jump: "captured sample_platform (commands echo_then_jump) = 1"
  by (simp add: captured_def echo_then_jump_def code_of_forward_jump code_of_echo arity_of_forward_jump
      sample_codes)

lemma capture_echo_then_jump:
  "capture_args sample_platform (rev (commands echo_then_jump))
     (x_typed\<lparr>input_function_status := True, dispatched := dispatched x_typed @ [echo_then_jump]\<rparr>) =
   Inr (x_typed\<lparr>input_function_status := True, dispatched := [echo_then_jump],
          rd := \<lparr>lookahead = [], terminal = sconst 0x0A, read_log = [False]\<rparr>,
          input_function_args := (0x78 # replicate 19 0),
          input_function_args_index := 1\<rparr>)"
  by (simp add: echo_then_jump_def[symmetric] x_typed_def initial_state_def)
     (simp add: echo_then_jump_def code_of_forward_jump code_of_echo arity_of_forward_jump
      input_function_push_args_def input_common_readch_def input_function_push_arg_def
      MAX_INPUT_FUNCTION_ARGS_def first_arg sample_codes)

lemma execute_echo_then_jump:
  "input_mapping_execute sample_platform echo_then_jump False x_typed =
   Inr (x_typed\<lparr>input_function_status := True, dispatched := [echo_then_jump],
          rd := \<lparr>lookahead = 0xE000 # L ''q'' @ [0xE02E], terminal = sconst 0x0A, read_log = [False]\<rparr>,
          input_function_args := (0x78 # replicate 19 0),
          input_function_args_index := 1\<rparr>)"
  unfolding input_mapping_execute_def capture_echo_then_jump
  by (simp add: echo_then_jump_def code_of_forward_jump code_of_echo input_unreadch_def
      input_common_unreadch_def sample_codes push_all)

lemma echo_then_jump_hyps:
  "\<exists>cmd \<in> set (commands echo_then_jump). input_function_get_code sample_platform cmd = - 1"
  "0 \<le> input_function_args_index x_typed"
  "input_function_args_index x_typed + int (captured sample_platform (commands echo_then_jump))
     \<le> int MAX_INPUT_FUNCTION_ARGS"
proof -
  show "\<exists>cmd \<in> set (commands echo_then_jump). input_function_get_code sample_platform cmd = - 1"
    using code_of_echo by (simp add: echo_then_jump_def)
  show "0 \<le> input_function_args_index x_typed"
    by (simp add: x_typed_def initial_state_def)
  show "input_function_args_index x_typed + int (captured sample_platform (commands echo_then_jump))
     \<le> int MAX_INPUT_FUNCTION_ARGS"
    by (simp add: captured_echo_then_jump x_typed_def initial_state_def MAX_INPUT_FUNCTION_ARGS_def)
qed

theorem execute_defers_commands_witness:
  "input_function_get_code sample_platform (L ''echo hi'') = - 1 \<and>
   L ''echo hi'' \<in> set (commands echo_then_jump) \<and>
   0 \<le> input_function_args_index x_typed \<and>
   input_function_args_index x_typed + int (captured sample_platform (commands echo_then_jump))
     \<le> int MAX_INPUT_FUNCTION_ARGS \<and>
   (\<exists>s'. input_mapping_execute sample_platform echo_then_jump False x_typed = Inr s' \<and>
      lookahead (rd s') = R_NULL sample_platform # seq echo_then_jump @ [0xE02E] \<and>
      fst (input_common_readch False (rd s')) = R_NULL sample_platform \<and>
      evaluated s' = evaluated x_typed \<and>
      fish_bind_mode s' = fish_bind_mode x_typed)"
proof -
  obtain s' rest where s':
      "input_mapping_execute sample_platform echo_then_jump False x_typed = Inr s'"
      "lookahead (rd s') = R_NULL sample_platform # seq echo_then_jump @ rest"
      "fst (input_common_readch False (rd s')) = R_NULL sample_platform"
      "evaluated s' = evaluated x_typed" "fish_bind_mode s' = fish_bind_mode x_typed"
    using execute_defers_commands[OF echo_then_jump_hyps] by blast
  have "lookahead (rd s') = 0xE000 # L ''q'' @ [0xE02E]"
    using s'(1) unfolding execute_echo_then_jump by auto
  then have "rest = [0xE02E]"
    using s'(2) by (simp add: sample_codes echo_then_jump_def)
  then show ?thesis
    using s' echo_then_jump_hyps(2,3) code_of_echo by (auto simp: echo_then_jump_def)
qed

theorem abort_keeps_captured_args_witness:
  "input_function_get_code sample_platform (L ''echo hi'') = - 1 \<and>
   L ''echo hi'' \<in> set (commands echo_then_jump) \<and>
   0 \<le> input_function_args_index x_typed \<and>
   input_function_args_index x_typed + int (captured sample_platform (commands echo_then_jump))
     \<le> int MAX_INPUT_FUNCTION_ARGS \<and>
   (\<exists>s1 s'.
      capture_args sample_platform (rev (commands echo_then_jump))
        (x_typed\<lparr>input_function_status := True,
           dispatched := dispatched x_typed @ [echo_then_jump]\<rparr>) = Inr s1 \<and>
      input_mapping_execute sample_platform echo_then_jump False x_typed = Inr s' \<and>
      input_function_args s1 = 0x78 # replicate 19 0 \<and>
      input_function_args s' = 0x78 # replicate 19 0 \<and>
      input_function_args_index s1 = 1 \<and>
      input_function_args_index s' = 1)"
proof -
  obtain s1 s' la where s:
      "capture_args sample_platform (rev (commands echo_then_jump))
        (x_typed\<lparr>input_function_status := True,
           dispatched := dispatched x_typed @ [echo_then_jump]\<rparr>) = Inr s1"
      "input_mapping_execute sample_platform echo_then_jump False x_typed = Inr s'"
      "input_function_args s' = input_function_args s1"
      "input_function_args_index s' = input_function_args_index s1"
    using abort_keeps_captured_args[OF echo_then_jump_hyps] by blast
  have "input_function_args s1 = 0x78 # replicate 19 0" "input_function_args_index s1 = 1"
    using s(1) unfolding capture_echo_then_jump by auto
  then show ?thesis
    using s echo_then_jump_hyps(2,3) code_of_echo by (auto simp: echo_then_jump_def)
qed

subsection \<open>Match or generic\<close>

lemma push_args_loop_dispatched:
  "push_args_loop n s = Inr s' \<Longrightarrow> dispatched s' = dispatched s"
proof (induction n arbitrary: s)
  case 0
  then show ?case by simp
next
  case (Suc n)
  then show ?case
    by (auto simp: input_function_push_arg_def split: prod.splits sum.splits if_splits)
qed

lemma capture_args_dispatched:
  "capture_args P cmds s = Inr s' \<Longrightarrow> dispatched s' = dispatched s"
proof (induction cmds arbitrary: s)
  case Nil
  then show ?case by simp
next
  case (Cons command rest)
  then show ?case
    by (auto simp: input_function_push_args_def split: sum.splits if_splits
        dest: push_args_loop_dispatched)
qed

lemma run_commands_dispatched:
  "dispatched (run_commands P m a cmds s) = dispatched s"
  by (induction cmds arbitrary: s)
     (auto simp: input_set_bind_mode_def parser_eval_def Let_def)

lemma execute_dispatched:
  "input_mapping_execute P m a s = Inr s' \<Longrightarrow> dispatched s' = dispatched s @ [m]"
  by (auto simp: input_mapping_execute_def run_commands_dispatched split: sum.splits
      dest: capture_args_dispatched)

lemma hit_iff:
  "hit P bm r m \<longleftrightarrow> mode m = bm \<and> seq m \<noteq> [] \<and>
     stake (length (c_str (seq m))) (readable r) = c_str (seq m)"
  by (simp add: hit_def is_match_iff)

lemma hit_cong: "readable r = readable r' \<Longrightarrow> hit P bm r = hit P bm r'"
  by (rule ext) (simp add: hit_iff)

lemma scan_spec:
  "(\<forall>m. find (hit P bm (rd s)) ms = Some m \<longrightarrow>
      (\<exists>r'. scan_mappings P a bm g ms s = input_mapping_execute P m a (s\<lparr>rd := r'\<rparr>) \<and>
            readable (rd s) = c_str (seq m) @- readable r')) \<and>
   (find (hit P bm (rd s)) ms = None \<longrightarrow>
      (\<forall>g'. last_generic bm g ms = Some g' \<longrightarrow>
         (\<exists>r'. scan_mappings P a bm g ms s = input_mapping_execute P g' a (s\<lparr>rd := r'\<rparr>) \<and>
               readable r' = readable (rd s))) \<and>
      (last_generic bm g ms = None \<longrightarrow>
         (\<exists>r' l. scan_mappings P a bm g ms s = Inr (s\<lparr>rd := r'\<rparr>) \<and>
               read_log r' = l @ [False] \<and>
               readable r' = discard_one P (readable (rd s)))))"
proof (induction ms arbitrary: g s)
  case Nil
  show ?case
  proof (cases g)
    case (Some g')
    have "s = s\<lparr>rd := rd s\<rparr>" by simp
    then show ?thesis
      using Some by (auto simp: last_generic_def intro!: exI[of _ "rd s"])
  next
    case None
    obtain c r where rc: "input_common_readch False (rd s) = (c, r)"
      by (cases "input_common_readch False (rd s)") auto
    from readch_readable[OF rc] have x: "readable (rd s) = c ## readable r"
      and l: "read_log r = read_log (rd s) @ [False]" by simp_all
    have "read_log (if c = R_EOF P then input_common_unreadch c r else r) = read_log (rd s) @ [False]"
      using l by (simp add: input_common_unreadch_def)
    moreover have "readable (if c = R_EOF P then input_common_unreadch c r else r) =
        discard_one P (readable (rd s))"
      using x by (simp add: input_common_unreadch_def readable_def discard_one_def)
    ultimately show ?thesis
      using None rc by (auto simp: last_generic_def)
  qed
next
  case (Cons m ms)
  show ?case
  proof (cases "mode m \<noteq> bm")
    case True
    have f: "find (hit P bm (rd s)) (m # ms) = find (hit P bm (rd s)) ms"
      using True by (simp add: hit_def)
    have lg: "last_generic bm g (m # ms) = last_generic bm g ms"
      using True by (simp add: last_generic_def)
    have sc: "scan_mappings P a bm g (m # ms) s = scan_mappings P a bm g ms s"
      using True by simp
    show ?thesis
      unfolding f lg sc by (rule Cons.IH)
  next
    case mode: False
    show ?thesis
    proof (cases "seq m = []")
      case True
      have f: "find (hit P bm (rd s)) (m # ms) = find (hit P bm (rd s)) ms"
        using True by (simp add: hit_def)
      have lg: "last_generic bm g (m # ms) = last_generic bm (Some m) ms"
        using True mode by (simp add: last_generic_def)
      have sc: "scan_mappings P a bm g (m # ms) s = scan_mappings P a bm (Some m) ms s"
        using True mode by simp
      show ?thesis
        unfolding f lg sc by (rule Cons.IH)
    next
      case False
      obtain b r1 where im: "input_mapping_is_match P m (rd s) = (b, r1)"
        by (cases "input_mapping_is_match P m (rd s)") auto
      show ?thesis
      proof (cases b)
        case True
        then have f: "find (hit P bm (rd s)) (m # ms) = Some m"
          using im mode False by (simp add: hit_def)
        have sc: "scan_mappings P a bm g (m # ms) s = input_mapping_execute P m a (s\<lparr>rd := r1\<rparr>)"
          using im True mode False by simp
        have "readable (rd s) = c_str (seq m) @- readable r1"
          using is_match_spec[OF im] True by auto
        then show ?thesis
          unfolding f sc by auto
      next
        case nb: False
        then have f: "find (hit P bm (rd s)) (m # ms) = find (hit P bm (rd s)) ms"
          using im by (simp add: hit_def)
        have same: "readable r1 = readable (rd s)"
          using is_match_spec[OF im] nb by auto
        have hc: "hit P bm r1 = hit P bm (rd s)"
          using same by (intro hit_cong) simp
        have sc: "scan_mappings P a bm g (m # ms) s = scan_mappings P a bm g ms (s\<lparr>rd := r1\<rparr>)"
          using im nb mode False by simp
        have lg: "last_generic bm g (m # ms) = last_generic bm g ms"
          using False by (simp add: last_generic_def)
        show ?thesis
          unfolding f sc lg using Cons.IH[where s = "s\<lparr>rd := r1\<rparr>" and g = g] by (simp add: hc same)
      qed
    qed
  qed
qed

lemma find_hit_Some: "find (hit P bm r) ms = Some m \<Longrightarrow> m \<in> set ms \<and> hit P bm r m"
  by (auto simp: find_Some_iff)

lemma last_generic_Cons:
  "last_generic bm g (m # ms) =
   last_generic bm (if mode m = bm \<and> seq m = [] then Some m else g) ms"
  by (simp add: last_generic_def)

lemma last_generic_Some:
  "last_generic bm g ms = Some g' \<Longrightarrow>
   g = Some g' \<or> (g' \<in> set ms \<and> mode g' = bm \<and> seq g' = [])"
proof (induction ms arbitrary: g)
  case Nil
  then show ?case by (simp add: last_generic_def)
next
  case (Cons m ms)
  show ?case
  proof (cases "mode m = bm \<and> seq m = []")
    case True
    then have "last_generic bm (Some m) ms = Some g'"
      using Cons.prems by (simp add: last_generic_Cons)
    from Cons.IH[OF this] True show ?thesis by auto
  next
    case False
    then have "(if mode m = bm \<and> seq m = [] then Some m else g) = g"
      by (rule if_not_P)
    then have "last_generic bm g ms = Some g'"
      using Cons.prems unfolding last_generic_Cons by simp
    from Cons.IH[OF this] show ?thesis by auto
  qed
qed

lemma last_generic_None:
  "last_generic bm g ms = None \<Longrightarrow> g = None \<and> (\<forall>m \<in> set ms. \<not> (mode m = bm \<and> seq m = []))"
proof (induction ms arbitrary: g)
  case Nil
  then show ?case by (simp add: last_generic_def)
next
  case (Cons m ms)
  show ?case
  proof (cases "mode m = bm \<and> seq m = []")
    case True
    then have "last_generic bm (Some m) ms = None"
      using Cons.prems by (simp add: last_generic_Cons)
    from Cons.IH[OF this] show ?thesis by simp
  next
    case False
    then have "(if mode m = bm \<and> seq m = [] then Some m else g) = g"
      by (rule if_not_P)
    then have "last_generic bm g ms = None"
      using Cons.prems unfolding last_generic_Cons by simp
    from Cons.IH[OF this] False show ?thesis by auto
  qed
qed

lemma scan_skips_other_mode:
  "mode b \<noteq> bm \<Longrightarrow>
   scan_mappings P a bm g (removeAll b ms) s = scan_mappings P a bm g ms s"
proof (induction ms arbitrary: g s)
  case Nil
  show ?case by simp
next
  case (Cons m ms)
  show ?case
  proof (cases "m = b")
    case True
    then show ?thesis using Cons by simp
  next
    case False
    then have ra: "removeAll b (m # ms) = m # removeAll b ms" by simp
    obtain b0 r where im: "input_mapping_is_match P m (rd s) = (b0, r)"
      by (cases "input_mapping_is_match P m (rd s)") auto
    show ?thesis
      unfolding ra using im by (cases b0) (simp_all add: Cons.IH[OF Cons.prems])
  qed
qed

lemma scan_dispatches:
  assumes "scan_mappings P a bm None ms s = Inr s'"
  shows "dispatched s' = dispatched s \<or>
         (\<exists>m \<in> set ms. mode m = bm \<and> dispatched s' = dispatched s @ [m])"
proof (cases "find (hit P bm (rd s)) ms")
  case (Some m)
  then obtain r' where "scan_mappings P a bm None ms s = input_mapping_execute P m a (s\<lparr>rd := r'\<rparr>)"
    using scan_spec[of P bm s ms a None] by auto
  then have "dispatched s' = dispatched s @ [m]"
    using assms execute_dispatched[of P m a "s\<lparr>rd := r'\<rparr>" s'] by simp
  moreover have "m \<in> set ms \<and> mode m = bm"
    using find_hit_Some[OF Some] by (simp add: hit_def)
  ultimately show ?thesis by blast
next
  case None
  show ?thesis
  proof (cases "last_generic bm None ms")
    case nog: None
    then obtain r' where "scan_mappings P a bm None ms s = Inr (s\<lparr>rd := r'\<rparr>)"
      using scan_spec[of P bm s ms a None] None by auto
    then show ?thesis using assms by auto
  next
    case (Some g')
    then obtain r' where "scan_mappings P a bm None ms s = input_mapping_execute P g' a (s\<lparr>rd := r'\<rparr>)"
      using scan_spec[of P bm s ms a None] None by auto
    then have "dispatched s' = dispatched s @ [g']"
      using assms execute_dispatched[of P g' a "s\<lparr>rd := r'\<rparr>" s'] by simp
    moreover have "g' \<in> set ms \<and> mode g' = bm"
      using last_generic_Some[OF Some] by simp
    ultimately show ?thesis by blast
  qed
qed

text \<open>
  C6. Let the mode of a binding \<open>b\<close> differ from the current bind mode. Then
  \<^verbatim>\<open>input_mapping_execute_matching_or_generic\<close> does what the scan of the table without
  \<open>b\<close> does, every read included: no character is read for \<open>b\<close>. And where it returns,
  it has dispatched nothing or one binding of the current mode, and not \<open>b\<close>.
\<close>

theorem other_mode_never_dispatched:
  assumes "mode b \<noteq> input_get_bind_mode s"
  shows "scan_mappings P a (input_get_bind_mode s) None (removeAll b (mapping_list s)) s =
           input_mapping_execute_matching_or_generic P a s \<and>
         (\<forall>s'. input_mapping_execute_matching_or_generic P a s = Inr s' \<longrightarrow>
            dispatched s' \<noteq> dispatched s @ [b] \<and>
            (dispatched s' = dispatched s \<or>
             (\<exists>m \<in> set (mapping_list s). mode m = input_get_bind_mode s \<and>
                dispatched s' = dispatched s @ [m])))"
proof -
  have 1: "scan_mappings P a (input_get_bind_mode s) None (removeAll b (mapping_list s)) s =
           input_mapping_execute_matching_or_generic P a s"
    unfolding input_mapping_execute_matching_or_generic_def
    by (rule scan_skips_other_mode[OF assms])
  have 2: "dispatched s' \<noteq> dispatched s @ [b] \<and>
            (dispatched s' = dispatched s \<or>
             (\<exists>m \<in> set (mapping_list s). mode m = input_get_bind_mode s \<and>
                dispatched s' = dispatched s @ [m]))"
    if "input_mapping_execute_matching_or_generic P a s = Inr s'" for s'
    using scan_dispatches[of P a "input_get_bind_mode s" "mapping_list s" s s'] that assms
    by (auto simp: input_mapping_execute_matching_or_generic_def)
  from 1 2 show ?thesis by blast
qed

text \<open>
  C5. If \<^verbatim>\<open>input_mapping_execute_matching_or_generic\<close> returns having dispatched a
  binding with an empty sequence, then no binding of the current mode with a non-empty
  sequence matches the input, wherever the bindings stand in the table. If every binding of
  the current mode has a non-empty sequence and does not match, the function returns the
  state with only the reader changed: its last read was untimed, and the reads that follow
  deliver the input without its first character, or all of it when that character is
  \<^verbatim>\<open>R_EOF\<close>.
\<close>

theorem generic_only_without_match:
  "(\<forall>g s'. input_mapping_execute_matching_or_generic P a s = Inr s' \<and>
        dispatched s' = dispatched s @ [g] \<and> seq g = [] \<longrightarrow>
      (\<forall>m \<in> set (mapping_list s). mode m = input_get_bind_mode s \<and> seq m \<noteq> [] \<longrightarrow>
         \<not> fst (input_mapping_is_match P m (rd s)))) \<and>
   ((\<forall>m \<in> set (mapping_list s). mode m = input_get_bind_mode s \<longrightarrow>
        seq m \<noteq> [] \<and> \<not> fst (input_mapping_is_match P m (rd s))) \<longrightarrow>
      (\<exists>r' l. input_mapping_execute_matching_or_generic P a s = Inr (s\<lparr>rd := r'\<rparr>) \<and>
         read_log r' = l @ [False] \<and>
         readable r' = discard_one P (readable (rd s))))"
proof -
  let ?bm = "input_get_bind_mode s"
  let ?ms = "mapping_list s"
  note sp = scan_spec[of P ?bm s ?ms a None]
  have 1: "\<not> fst (input_mapping_is_match P m (rd s))"
    if r: "input_mapping_execute_matching_or_generic P a s = Inr s'"
      and d: "dispatched s' = dispatched s @ [g]" and g: "seq g = []"
      and m: "m \<in> set ?ms" "mode m = ?bm" "seq m \<noteq> []" for g s' m
  proof
    assume "fst (input_mapping_is_match P m (rd s))"
    then have "hit P ?bm (rd s) m" using m by (simp add: hit_def)
    then obtain m0 where f: "find (hit P ?bm (rd s)) ?ms = Some m0"
      using m(1) by (cases "find (hit P ?bm (rd s)) ?ms") (auto simp: find_None_iff)
    then obtain r' where "scan_mappings P a ?bm None ?ms s = input_mapping_execute P m0 a (s\<lparr>rd := r'\<rparr>)"
      using sp by auto
    then have "dispatched s' = dispatched s @ [m0]"
      using r execute_dispatched[of P m0 a "s\<lparr>rd := r'\<rparr>" s']
      by (simp add: input_mapping_execute_matching_or_generic_def)
    then have "m0 = g" using d by simp
    moreover have "seq m0 \<noteq> []" using find_hit_Some[OF f] by (simp add: hit_def)
    ultimately show False using g by simp
  qed
  have 2: "\<exists>r' l. input_mapping_execute_matching_or_generic P a s = Inr (s\<lparr>rd := r'\<rparr>) \<and>
         read_log r' = l @ [False] \<and> readable r' = discard_one P (readable (rd s))"
    if n: "\<forall>m \<in> set ?ms. mode m = ?bm \<longrightarrow> seq m \<noteq> [] \<and> \<not> fst (input_mapping_is_match P m (rd s))"
  proof -
    have f: "find (hit P ?bm (rd s)) ?ms = None"
      using n by (auto simp: find_None_iff hit_def)
    have lg: "last_generic ?bm None ?ms = None"
    proof (cases "last_generic ?bm None ?ms")
      case (Some g')
      then show ?thesis using last_generic_Some[OF Some] n by auto
    qed simp
    show ?thesis
      using sp f lg by (simp add: input_mapping_execute_matching_or_generic_def)
  qed
  from 1 2 show ?thesis by blast
qed

lemma generic_dispatched:
  assumes "\<forall>m \<in> set (mapping_list s). mode m = input_get_bind_mode s \<and> seq m \<noteq> [] \<longrightarrow>
             \<not> fst (input_mapping_is_match P m (rd s))"
    and "\<exists>g \<in> set (mapping_list s). mode g = input_get_bind_mode s \<and> seq g = []"
  shows "\<exists>g r'. g \<in> set (mapping_list s) \<and> mode g = input_get_bind_mode s \<and> seq g = [] \<and>
           input_mapping_execute_matching_or_generic P a s =
             input_mapping_execute P g a (s\<lparr>rd := r'\<rparr>) \<and>
           readable r' = readable (rd s)"
proof -
  let ?bm = "input_get_bind_mode s"
  let ?ms = "mapping_list s"
  have f: "find (hit P ?bm (rd s)) ?ms = None"
    using assms(1) by (auto simp: find_None_iff hit_def)
  obtain g' where lg: "last_generic ?bm None ?ms = Some g'"
    using assms(2) last_generic_None[of ?bm None ?ms] by (cases "last_generic ?bm None ?ms") auto
  then have "g' \<in> set ?ms \<and> mode g' = ?bm \<and> seq g' = []"
    using last_generic_Some[OF lg] by simp
  then show ?thesis
    using scan_spec[of P ?bm s ?ms a None] f lg
    by (auto simp: input_mapping_execute_matching_or_generic_def)
qed

lemma concrete_dispatched:
  assumes "\<exists>m \<in> set (mapping_list s). mode m = input_get_bind_mode s \<and> seq m \<noteq> [] \<and>
             fst (input_mapping_is_match P m (rd s))"
  shows "\<exists>m r'. m \<in> set (mapping_list s) \<and> mode m = input_get_bind_mode s \<and> seq m \<noteq> [] \<and>
           fst (input_mapping_is_match P m (rd s)) \<and>
           input_mapping_execute_matching_or_generic P a s =
             input_mapping_execute P m a (s\<lparr>rd := r'\<rparr>) \<and>
           readable (rd s) = c_str (seq m) @- readable r'"
proof -
  let ?bm = "input_get_bind_mode s"
  let ?ms = "mapping_list s"
  obtain m0 where f: "find (hit P ?bm (rd s)) ?ms = Some m0"
    using assms by (cases "find (hit P ?bm (rd s)) ?ms") (auto simp: find_None_iff hit_def)
  then show ?thesis
    using scan_spec[of P ?bm s ?ms a None] find_hit_Some[OF f]
    by (auto simp: input_mapping_execute_matching_or_generic_def hit_def)
qed

subsection \<open>Two runs of the scan\<close>

lemma modes_differ: "L ''insert'' \<noteq> L ''default''" "L ''default'' \<noteq> L ''insert''"
  by (simp_all add: L_def)

lemma c_str_default: "c_str (L ''default'') = L ''default''"
  by (simp add: c_str_def L_def)

lemma typed_a_fields:
  "mapping_list typed_a = [newline_binding, insert_a, generic_binding]"
  "rd typed_a = \<lparr>lookahead = [], terminal = [0x61] @- sconst 0x0A, read_log = []\<rparr>"
  "fish_bind_mode typed_a = None"
  "dispatched typed_a = []"
  "input_function_args_index typed_a = 0"
  by (simp_all add: typed_a_def initial_state_def input_mapping_add_def new_input_mapping_def
      input_mapping_insert_sorted_def lower_bound.simps length_is_greater_than_def
      newline_binding_def insert_a_def generic_binding_def modes_differ)

lemma code_of_self_insert:
  "input_function_get_code sample_platform (L ''self-insert'') = 0xE01A"
  by (simp add: input_function_get_code_def name_arr_def code_arr_def function_code_def
      sample_platform_def L_def upt_conv_Cons)

lemma arity_of_self_insert: "input_function_arity sample_platform 0xE01A = 0"
  by (simp add: input_function_arity_def R_FORWARD_JUMP_def R_BACKWARD_JUMP_def function_code_def
      sample_platform_def)

lemma self_insert_is_code: "(0xE01A :: wchar) \<noteq> - 1"
  by simp

lemma newline_on_a:
  "input_mapping_is_match sample_platform newline_binding (rd typed_a) =
     (False, \<lparr>lookahead = [0x61], terminal = sconst 0x0A, read_log = [False]\<rparr>)"
  by (simp add: typed_a_fields input_mapping_is_match_def newline_binding_def c_str_def
      match_chars.simps input_common_readch_def input_unreadch_def input_common_unreadch_def)

lemma insert_a_on_a:
  "fst (input_mapping_is_match sample_platform insert_a (rd typed_a))"
  by (simp add: typed_a_fields input_mapping_is_match_def insert_a_def c_str_def
      match_chars.simps input_common_readch_def)

lemma insert_a_on_b:
  "input_mapping_is_match sample_platform insert_a (rd typed_b_insert) =
     (False, \<lparr>lookahead = [0x62], terminal = sconst 0x0A, read_log = [False]\<rparr>)"
  by (simp add: typed_b_insert_def input_mapping_is_match_def insert_a_def c_str_def
      match_chars.simps input_common_readch_def input_unreadch_def input_common_unreadch_def)

lemma execute_generic:
  "input_mapping_execute sample_platform generic_binding True
     (typed_a\<lparr>rd := \<lparr>lookahead = [0x61], terminal = sconst 0x0A, read_log = [False]\<rparr>\<rparr>) =
   Inr typed_a_done"
  by (simp add: input_mapping_execute_def generic_binding_def[symmetric] typed_a_fields)
     (simp add: generic_binding_def code_of_self_insert input_function_push_args_def
      arity_of_self_insert self_insert_is_code
      input_unreadch_def input_common_unreadch_def input_set_bind_mode_def c_str_default
      typed_a_done_def)

lemma binding_fields:
  "mode newline_binding = L ''default''" "seq newline_binding = [0x0A]"
  "mode insert_a = L ''insert''" "seq insert_a = [0x61]"
  "mode generic_binding = L ''default''" "seq generic_binding = []"
  by (simp_all add: newline_binding_def insert_a_def generic_binding_def)

lemma typed_a_run:
  "input_mapping_execute_matching_or_generic sample_platform True typed_a = Inr typed_a_done"
proof -
  let ?r = "\<lparr>lookahead = [0x61], terminal = sconst 0x0A, read_log = [False]\<rparr> :: reader"
  have "scan_mappings sample_platform True (L ''default'') None
          [insert_a, generic_binding] (typed_a\<lparr>rd := ?r\<rparr>) = Inr typed_a_done"
    using execute_generic by (simp add: binding_fields modes_differ)
  then have "scan_mappings sample_platform True (L ''default'') None
          [newline_binding, insert_a, generic_binding] typed_a = Inr typed_a_done"
    using newline_on_a by (simp add: binding_fields)
  then show ?thesis
    by (simp add: input_mapping_execute_matching_or_generic_def input_get_bind_mode_def
        typed_a_fields(1,3) DEFAULT_BIND_MODE_def)
qed

lemma typed_b_run:
  "input_mapping_execute_matching_or_generic sample_platform True typed_b_insert =
   Inr (typed_b_insert\<lparr>rd := \<lparr>lookahead = [], terminal = sconst 0x0A, read_log = [False, False]\<rparr>\<rparr>)"
proof -
  let ?r = "\<lparr>lookahead = [0x62], terminal = sconst 0x0A, read_log = [False]\<rparr> :: reader"
  have "scan_mappings sample_platform True (L ''insert'') None
          [generic_binding] (typed_b_insert\<lparr>rd := ?r\<rparr>) =
        Inr (typed_b_insert\<lparr>rd := \<lparr>lookahead = [], terminal = sconst 0x0A, read_log = [False, False]\<rparr>\<rparr>)"
    by (simp add: binding_fields modes_differ input_common_readch_def sample_codes)
  then have "scan_mappings sample_platform True (L ''insert'') None
          [newline_binding, insert_a, generic_binding] typed_b_insert =
        Inr (typed_b_insert\<lparr>rd := \<lparr>lookahead = [], terminal = sconst 0x0A, read_log = [False, False]\<rparr>\<rparr>)"
    using insert_a_on_b by (simp add: binding_fields modes_differ)
  then show ?thesis
    by (simp add: input_mapping_execute_matching_or_generic_def input_get_bind_mode_def
        typed_b_insert_def typed_a_fields(1))
qed

lemma typed_a_mode: "input_get_bind_mode typed_a = L ''default''"
  by (simp add: input_get_bind_mode_def typed_a_fields DEFAULT_BIND_MODE_def)

lemma typed_b_fields:
  "mapping_list typed_b_insert = [newline_binding, insert_a, generic_binding]"
  "input_get_bind_mode typed_b_insert = L ''insert''"
  "readable (rd typed_b_insert) = 0x62 ## sconst 0x0A"
  by (simp_all add: typed_b_insert_def typed_a_fields input_get_bind_mode_def readable_def)

theorem other_mode_never_dispatched_witness:
  "mode insert_a \<noteq> input_get_bind_mode typed_a \<and>
   insert_a \<in> set (mapping_list typed_a) \<and>
   fst (input_mapping_is_match sample_platform insert_a (rd typed_a)) \<and>
   input_mapping_execute_matching_or_generic sample_platform True typed_a = Inr typed_a_done \<and>
   scan_mappings sample_platform True (input_get_bind_mode typed_a) None
     (removeAll insert_a (mapping_list typed_a)) typed_a = Inr typed_a_done \<and>
   dispatched typed_a_done = [generic_binding] \<and>
   dispatched typed_a_done \<noteq> dispatched typed_a @ [insert_a]"
proof -
  have h: "mode insert_a \<noteq> input_get_bind_mode typed_a"
    by (simp add: typed_a_mode binding_fields modes_differ)
  have m: "insert_a \<in> set (mapping_list typed_a)"
    by (simp add: typed_a_fields)
  have d: "dispatched typed_a_done = [generic_binding]"
    by (simp add: typed_a_done_def)
  from other_mode_never_dispatched[OF h, of sample_platform True] typed_a_run
  have "scan_mappings sample_platform True (input_get_bind_mode typed_a) None
     (removeAll insert_a (mapping_list typed_a)) typed_a = Inr typed_a_done"
    and "dispatched typed_a_done \<noteq> dispatched typed_a @ [insert_a]"
    by simp_all
  then show ?thesis
    using h m d insert_a_on_a typed_a_run by blast
qed

theorem generic_only_without_match_witness:
  "input_mapping_execute_matching_or_generic sample_platform True typed_a = Inr typed_a_done \<and>
   dispatched typed_a_done = dispatched typed_a @ [generic_binding] \<and>
   seq generic_binding = [] \<and>
   newline_binding \<in> set (mapping_list typed_a) \<and>
   mode newline_binding = input_get_bind_mode typed_a \<and>
   seq newline_binding \<noteq> [] \<and>
   \<not> fst (input_mapping_is_match sample_platform newline_binding (rd typed_a)) \<and>
   insert_a \<in> set (mapping_list typed_b_insert) \<and>
   mode insert_a = input_get_bind_mode typed_b_insert \<and>
   \<not> fst (input_mapping_is_match sample_platform insert_a (rd typed_b_insert)) \<and>
   (\<exists>r' l. input_mapping_execute_matching_or_generic sample_platform True typed_b_insert =
        Inr (typed_b_insert\<lparr>rd := r'\<rparr>) \<and>
      read_log r' = l @ [False] \<and>
      readable r' = discard_one sample_platform (readable (rd typed_b_insert))) \<and>
   discard_one sample_platform (readable (rd typed_b_insert)) = sconst 0x0A"
proof -
  have d: "dispatched typed_a_done = dispatched typed_a @ [generic_binding]"
    by (simp add: typed_a_done_def typed_a_fields)
  have n: "newline_binding \<in> set (mapping_list typed_a)"
      "mode newline_binding = input_get_bind_mode typed_a" "seq newline_binding \<noteq> []"
    by (simp_all add: typed_a_fields typed_a_mode binding_fields)
  have a: "\<not> fst (input_mapping_is_match sample_platform newline_binding (rd typed_a))"
    using generic_only_without_match[of sample_platform True typed_a] typed_a_run d
      binding_fields(6) n by blast
  have b: "\<forall>m \<in> set (mapping_list typed_b_insert). mode m = input_get_bind_mode typed_b_insert \<longrightarrow>
      seq m \<noteq> [] \<and> \<not> fst (input_mapping_is_match sample_platform m (rd typed_b_insert))"
    by (simp add: typed_b_fields binding_fields modes_differ insert_a_on_b)
  have c: "\<exists>r' l. input_mapping_execute_matching_or_generic sample_platform True typed_b_insert =
        Inr (typed_b_insert\<lparr>rd := r'\<rparr>) \<and>
      read_log r' = l @ [False] \<and>
      readable r' = discard_one sample_platform (readable (rd typed_b_insert))"
    using generic_only_without_match[of sample_platform True typed_b_insert] b by blast
  have e: "discard_one sample_platform (readable (rd typed_b_insert)) = sconst 0x0A"
    by (simp add: typed_b_fields discard_one_def sample_codes)
  have i: "insert_a \<in> set (mapping_list typed_b_insert)"
      "mode insert_a = input_get_bind_mode typed_b_insert"
      "\<not> fst (input_mapping_is_match sample_platform insert_a (rd typed_b_insert))"
    by (simp_all add: typed_b_fields binding_fields insert_a_on_b)
  show ?thesis
    using typed_a_run d binding_fields(6) n a i c e by blast
qed

subsection \<open>The terminfo registry\<close>

lemma registry_lookup:
  "(case find (\<lambda>i. nm = name (tm ! i)) [0..<length tm] of
      Some i \<Rightarrow> Some (tseq (tm ! i)) | None \<Rightarrow> None) =
   map_of (map (\<lambda>m. (name m, tseq m)) tm) nm"
proof (cases "find (\<lambda>i. nm = name (tm ! i)) [0..<length tm]")
  case None
  then have "nm \<notin> name ` set tm"
    by (auto simp: find_None_iff in_set_conv_nth)
  then have "map_of (map (\<lambda>m. (name m, tseq m)) tm) nm = None"
    by (simp add: map_of_eq_None_iff image_image)
  with None show ?thesis by simp
next
  case (Some i)
  then have i: "i < length tm" "nm = name (tm ! i)" "\<forall>j < i. nm \<noteq> name (tm ! j)"
    by (auto simp: find_Some_iff)
  have split: "tm = take i tm @ tm ! i # drop (Suc i) tm"
    using i(1) by (simp add: id_take_nth_drop)
  have "nm \<notin> name ` set (take i tm)"
  proof
    assume "nm \<in> name ` set (take i tm)"
    then obtain j where "j < length (take i tm)" "name (take i tm ! j) = nm"
      by (auto simp: in_set_conv_nth)
    then have "j < i" "name (tm ! j) = nm" by simp_all
    then show False using i(3) by blast
  qed
  then have before: "map_of (map (\<lambda>m. (name m, tseq m)) (take i tm)) nm = None"
    by (simp add: map_of_eq_None_iff image_image)
  have "map_of (map (\<lambda>m. (name m, tseq m)) (take i tm @ tm ! i # drop (Suc i) tm)) nm =
        Some (tseq (tm ! i))"
    using before i(2) by (simp add: map_add_def)
  then have "map_of (map (\<lambda>m. (name m, tseq m)) tm) nm = Some (tseq (tm ! i))"
    using split by simp
  with Some show ?thesis by simp
qed

text \<open>
  C8. \<^verbatim>\<open>input_terminfo_get_sequence\<close> first calls \<^verbatim>\<open>input_init\<close>; where that ends the
  process, so does the lookup, and in a state already initialised it changes nothing. The
  lookup then reads the registry of the initialised state: for a name it does not have the
  answer is false with \<^verbatim>\<open>errno\<close> set to \<^verbatim>\<open>ENOENT\<close>; for a name whose sequence is null,
  false with \<^verbatim>\<open>errno\<close> set to \<^verbatim>\<open>EILSEQ\<close>; for a name with a sequence, true with the
  sequence, converted to a wide string, stored in \<^verbatim>\<open>*out_seq\<close>.
\<close>

theorem terminfo_get_sequence_cases:
  "(\<forall>e. input_init P s = Inl e \<longrightarrow> input_terminfo_get_sequence P nm s = Inl e) \<and>
   (\<forall>s'. input_init P s = Inr s' \<longrightarrow>
      (terminfo_registry s' nm = None \<longrightarrow>
         input_terminfo_get_sequence P nm s = Inr (None, s'\<lparr>errno := ENOENT\<rparr>)) \<and>
      (terminfo_registry s' nm = Some None \<longrightarrow>
         input_terminfo_get_sequence P nm s = Inr (None, s'\<lparr>errno := EILSEQ\<rparr>)) \<and>
      (\<forall>res. terminfo_registry s' nm = Some (Some res) \<longrightarrow>
         input_terminfo_get_sequence P nm s = Inr (Some (widen P res), s'))) \<and>
   (is_init s \<longrightarrow> input_init P s = Inr s)"
proof -
  have 1: "input_terminfo_get_sequence P nm s = Inl e" if "input_init P s = Inl e" for e
    using that by (simp add: input_terminfo_get_sequence_def)
  have 2: "(terminfo_registry s' nm = None \<longrightarrow>
         input_terminfo_get_sequence P nm s = Inr (None, s'\<lparr>errno := ENOENT\<rparr>)) \<and>
      (terminfo_registry s' nm = Some None \<longrightarrow>
         input_terminfo_get_sequence P nm s = Inr (None, s'\<lparr>errno := EILSEQ\<rparr>)) \<and>
      (\<forall>res. terminfo_registry s' nm = Some (Some res) \<longrightarrow>
         input_terminfo_get_sequence P nm s = Inr (Some (widen P res), s'))"
    if i: "input_init P s = Inr s'" for s'
  proof (cases "find (\<lambda>i. nm = name (terminfo_mappings s' ! i)) [0..<length (terminfo_mappings s')]")
    case None
    then have "terminfo_registry s' nm = None"
      using registry_lookup[where nm = nm and tm = "terminfo_mappings s'"] by (simp add: terminfo_registry_def)
    then show ?thesis
      using None i by (simp add: input_terminfo_get_sequence_def)
  next
    case (Some k)
    then have r: "terminfo_registry s' nm = Some (tseq (terminfo_mappings s' ! k))"
      using registry_lookup[where nm = nm and tm = "terminfo_mappings s'"] by (simp add: terminfo_registry_def)
    show ?thesis
    proof (cases "tseq (terminfo_mappings s' ! k)")
      case None
      then show ?thesis
        using Some i r by (simp add: input_terminfo_get_sequence_def)
    next
      case (Some res)
      then show ?thesis
        using \<open>find _ _ = Some k\<close> i r by (simp add: input_terminfo_get_sequence_def)
    qed
  qed
  have 3: "input_init P s = Inr s" if "is_init s"
    using that by (simp add: input_init_def)
  from 1 2 3 show ?thesis by blast
qed

lemma init_sample:
  "input_init sample_platform (initial_state (sconst 0x0A)) = Inr (add_defaults started)"
  by (simp add: input_init_def started_def sample_platform_def input_terminfo_init_def initial_state_def)

lemma registry_add:
  "terminfo_mappings (input_mapping_add q c m sm s) = terminfo_mappings s"
  by (simp add: input_mapping_add_def new_input_mapping_def input_mapping_insert_sorted_def
      Let_def split: option.splits)

lemma registry_run_adds: "terminfo_mappings (run_adds ops s) = terminfo_mappings s"
  by (induction ops s rule: run_adds.induct) (simp_all add: registry_add)

lemma registry_add_defaults: "terminfo_mappings (add_defaults s) = terminfo_mappings s"
  unfolding add_defaults_def by (rule registry_run_adds)

lemma started_registry:
  "terminfo_registry (add_defaults started) (L ''left'') = Some (Some [CHR 0x1B, CHR ''['', CHR ''D''])"
  "terminfo_registry (add_defaults started) (L ''right'') = Some None"
  "terminfo_registry (add_defaults started) (L ''escape'') = None"
  by (simp_all add: terminfo_registry_def registry_add_defaults started_def
      input_terminfo_init_def initial_state_def tinfo_names_def sample_platform_def L_def)

lemma is_init_add: "is_init (input_mapping_add q c m sm s) = is_init s"
  by (simp add: input_mapping_add_def new_input_mapping_def input_mapping_insert_sorted_def
      Let_def split: option.splits)

lemma is_init_run_adds: "is_init (run_adds ops s) = is_init s"
  by (induction ops s rule: run_adds.induct) (simp_all add: is_init_add)

lemma started_is_init: "is_init (add_defaults started)"
  unfolding add_defaults_def is_init_run_adds by (simp add: started_def input_terminfo_init_def)

lemma no_terminal:
  "input_init (sample_platform\<lparr>setupterm_ok := False\<rparr>) (initial_state (sconst 0x0A)) = Inl ProcessExit"
  by (simp add: input_init_def sample_platform_def initial_state_def)

theorem terminfo_get_sequence_cases_witness:
  "input_init sample_platform (initial_state (sconst 0x0A)) = Inr (add_defaults started) \<and>
   terminfo_registry (add_defaults started) (L ''escape'') = None \<and>
   input_terminfo_get_sequence sample_platform (L ''escape'') (initial_state (sconst 0x0A)) =
     Inr (None, (add_defaults started)\<lparr>errno := ENOENT\<rparr>) \<and>
   terminfo_registry (add_defaults started) (L ''right'') = Some None \<and>
   input_terminfo_get_sequence sample_platform (L ''right'') (initial_state (sconst 0x0A)) =
     Inr (None, (add_defaults started)\<lparr>errno := EILSEQ\<rparr>) \<and>
   terminfo_registry (add_defaults started) (L ''left'') = Some (Some [CHR 0x1B, CHR ''['', CHR ''D'']) \<and>
   input_terminfo_get_sequence sample_platform (L ''left'') (initial_state (sconst 0x0A)) =
     Inr (Some [0x1B, 0x5B, 0x44], add_defaults started) \<and>
   is_init (add_defaults started) \<and>
   input_init sample_platform (add_defaults started) = Inr (add_defaults started) \<and>
   input_init (sample_platform\<lparr>setupterm_ok := False\<rparr>) (initial_state (sconst 0x0A)) = Inl ProcessExit \<and>
   input_terminfo_get_sequence (sample_platform\<lparr>setupterm_ok := False\<rparr>) (L ''left'')
     (initial_state (sconst 0x0A)) = Inl ProcessExit"
proof -
  note t = terminfo_get_sequence_cases[of sample_platform "initial_state (sconst 0x0A)"]
  have w: "widen sample_platform [CHR 0x1B, CHR ''['', CHR ''D''] = [0x1B, 0x5B, 0x44]"
    by (simp add: sample_platform_def)
  have 1: "input_terminfo_get_sequence sample_platform (L ''escape'') (initial_state (sconst 0x0A)) =
     Inr (None, (add_defaults started)\<lparr>errno := ENOENT\<rparr>)"
    using t[of "L ''escape''"] init_sample started_registry(3) by blast
  have 2: "input_terminfo_get_sequence sample_platform (L ''right'') (initial_state (sconst 0x0A)) =
     Inr (None, (add_defaults started)\<lparr>errno := EILSEQ\<rparr>)"
    using t[of "L ''right''"] init_sample started_registry(2) by blast
  have "input_terminfo_get_sequence sample_platform (L ''left'') (initial_state (sconst 0x0A)) =
     Inr (Some (widen sample_platform [CHR 0x1B, CHR ''['', CHR ''D'']), add_defaults started)"
    using t[of "L ''left''"] init_sample started_registry(1) by blast
  then have 3: "input_terminfo_get_sequence sample_platform (L ''left'') (initial_state (sconst 0x0A)) =
     Inr (Some [0x1B, 0x5B, 0x44], add_defaults started)"
    unfolding w .
  have 4: "input_init sample_platform (add_defaults started) = Inr (add_defaults started)"
    using terminfo_get_sequence_cases[of sample_platform "add_defaults started"] started_is_init
    by blast
  have 5: "input_terminfo_get_sequence (sample_platform\<lparr>setupterm_ok := False\<rparr>) (L ''left'')
     (initial_state (sconst 0x0A)) = Inl ProcessExit"
    using terminfo_get_sequence_cases[of "sample_platform\<lparr>setupterm_ok := False\<rparr>"
        "initial_state (sconst 0x0A)" "L ''left''"] no_terminal
    by blast
  show ?thesis
    using init_sample started_registry 1 2 3 started_is_init 4 no_terminal 5 by blast
qed

end
